theory Spec2Isabelle
  imports Main "HOL-Library.Sublist" "HOL-Library.AList"
begin

section \<open>Common data: texts, errors\<close>

text \<open>
  A Python \<open>str\<close> is a sequence of Unicode code points. Where the code converts between
  characters and bytes (the byte-range partitioner) a text is a list of code points
  (\<open>nat\<close>), and \<open>utf8_len\<close> is the number of bytes of \<open>c.encode('utf-8')\<close>. An ASCII
  literal is written \<open>u ''...''\<close>. Files are read in text mode; the model has no
  newline translation, so a file is the list of the code points that \<open>read\<close> returns.
\<close>

type_synonym ustr = "nat list"

abbreviation u :: "string \<Rightarrow> ustr" where
  "u s \<equiv> map of_char s"

definition utf8_len :: "nat \<Rightarrow> nat" where
  "utf8_len c = (if c < 128 then 1 else if c < 2048 then 2 else if c < 65536 then 3 else 4)"

definition encode_len :: "ustr \<Rightarrow> nat" where
  "encode_len s = sum_list (map utf8_len s)"

text \<open>The exceptions the modelled functions raise. A \<open>ValueError\<close> carries what its
  message is built from.\<close>

datatype error =
    ZeroDivisionError
  | IndexError
  | KeyError
  | AssertionError
  | ValueError_empty_max
  | ValueError_body_tags int string
  | ValueError_body_close_tags int string
  | ValueError_not_enough_files int int
  | ValueError_europarl_line nat string

section \<open>Substrings\<close>

text \<open>\<open>pat in s\<close> and \<open>s.index(pat)\<close>: the index of the first occurrence, if any.\<close>

fun find_sub :: "'a list \<Rightarrow> 'a list \<Rightarrow> nat option" where
  "find_sub pat [] = (if pat = [] then Some 0 else None)"
| "find_sub pat (x # xs) =
     (if prefix pat (x # xs) then Some 0 else map_option Suc (find_sub pat xs))"

section \<open>ByteRangePartitioner\<close>

definition BUFFER_SIZE :: nat where
  "BUFFER_SIZE = 16777216"

definition page_mark :: ustr where
  "page_mark = u ''<page''"

text \<open>
  \<open>count_in_blocks(files, size)\<close> with the two optional arguments left at \<open>None\<close>: the
  lengths of the blocks that \<open>files.read(size)\<close> returns until it returns the empty string.
  The file object is the list of code points not read yet.
\<close>

function count_in_blocks :: "ustr \<Rightarrow> nat \<Rightarrow> nat list" where
  "count_in_blocks files sz =
     (let b = take sz files in
      if b = [] then [] else length b # count_in_blocks (drop sz files) sz)"
  by pat_completeness auto
termination
  by (relation "measure (\<lambda>(files, sz). length files)") auto

declare count_in_blocks.simps [simp del]

definition count_characters_in_file :: "ustr \<Rightarrow> nat" where
  "count_characters_in_file file = sum_list (count_in_blocks file BUFFER_SIZE)"

text \<open>
  The loop of \<open>move_by_n_characters_in_file(fd, n, buffer_size)\<close>. The boolean is the
  truth value of \<open>buffer\<close> (initially \<open>'filler'\<close>); the result is
  \<open>(characters_read, bytes_read)\<close> and the file object after the reads.
\<close>

function move_loop :: "ustr \<Rightarrow> int \<Rightarrow> nat \<Rightarrow> bool \<Rightarrow> nat \<Rightarrow> nat \<Rightarrow> nat \<times> nat \<times> ustr" where
  "move_loop fd n buffer_size buffer characters_read bytes_read =
     (if buffer \<and> n > int characters_read then
        (let k = min buffer_size (nat (n - int characters_read));
             b = take k fd
         in move_loop (drop k fd) n buffer_size (b \<noteq> [])
              (characters_read + length b) (bytes_read + encode_len b))
      else (characters_read, bytes_read, fd))"
  by pat_completeness auto
termination
  by (relation "measure (\<lambda>(fd, n, bs, buffer, cr, br).
        if buffer then nat (n - int cr) + 1 else 0)") auto

declare move_loop.simps [simp del]

definition move_by_n_characters_in_file :: "ustr \<Rightarrow> int \<Rightarrow> nat \<Rightarrow> nat \<times> nat \<times> ustr" where
  "move_by_n_characters_in_file fd n buffer_size = move_loop fd n buffer_size True 0 0"

text \<open>\<open>f.readline()\<close>: the line up to and including the next newline (code point 10),
  or the rest of the file; the empty string at the end of the file.\<close>

fun readline :: "ustr \<Rightarrow> ustr \<times> ustr" where
  "readline [] = ([], [])"
| "readline (c # cs) =
     (if c = 10 then ([c], cs) else (let (l, r) = readline cs in (c # l, r)))"

record gb_state =
  byte_borders :: "(nat \<times> nat) list"
  num_characters_in_part :: "nat list"
  last_byte_border :: nat
  total_characters_read :: nat
  remainder :: ustr
  fd :: ustr

text \<open>
  The inner \<open>while line:\<close> loop of \<open>get_borders_with_documents_intact\<close>. It returns the
  new \<open>remainder\<close> when a line with \<open><page\<close> was found (\<open>success\<close>), and the updated
  \<open>characters_in_part\<close>, \<open>bytes_read\<close>, \<open>total_characters_read\<close> and file object.
\<close>

function scan_lines ::
  "ustr \<Rightarrow> ustr \<Rightarrow> nat \<Rightarrow> nat \<Rightarrow> nat \<Rightarrow> ustr option \<times> nat \<times> nat \<times> nat \<times> ustr" where
  "scan_lines line f characters_in_part bytes_read total_read =
     (if line = [] then (None, characters_in_part, bytes_read, total_read, f)
      else case find_sub page_mark line of
        Some new_page_start \<Rightarrow>
          (Some (drop new_page_start line),
           characters_in_part + length (take new_page_start line),
           bytes_read + encode_len (take new_page_start line), total_read, f)
      | None \<Rightarrow>
          (let (line', f') = readline f
           in scan_lines line' f' (characters_in_part + length line)
                (bytes_read + encode_len line) (total_read + length line')))"
  by pat_completeness auto

lemma readline_length: "readline f = (l, r) \<Longrightarrow> length f = length l + length r"
  by (induction f arbitrary: l r) (auto split: if_splits prod.splits)

lemma readline_empty: "readline f = ([], r) \<Longrightarrow> f = []"
  by (cases f) (auto split: if_splits prod.splits)

termination scan_lines
proof (relation "measure (\<lambda>(line, f, c, b, t). length f + (if line = [] then 0 else 1))",
    goal_cases)
  case 1
  show ?case by simp
next
  case (2 line f c b t x xa y)
  then have "length f = length xa + length y"
    by (simp add: readline_length)
  with 2 show ?case
    by (cases "xa = []") auto
qed

declare scan_lines.simps [simp del]

text \<open>One iteration of \<open>for i in range(num_parts)\<close>.\<close>

definition part_step :: "int \<Rightarrow> nat \<Rightarrow> gb_state \<Rightarrow> gb_state" where
  "part_step part_size i s =
     (let read_size = part_size * (int i + 1) - int (total_characters_read s);
          (characters_read, bytes_read0, f1) =
             move_by_n_characters_in_file (fd s) read_size BUFFER_SIZE;
          characters_in_part = characters_read + length (remainder s);
          bytes_read = bytes_read0 + encode_len (remainder s);
          total1 = total_characters_read s + characters_in_part
      in if int characters_in_part < read_size then
           s\<lparr>byte_borders := byte_borders s @
                [(last_byte_border s, last_byte_border s + bytes_read)],
             num_characters_in_part := num_characters_in_part s @ [characters_in_part],
             total_characters_read := total1, fd := f1\<rparr>
         else
           (let (line, f2) = readline f1
            in case scan_lines line f2 characters_in_part bytes_read (total1 + length line) of
              (Some rem, cip, br, total2, f3) \<Rightarrow>
                s\<lparr>byte_borders := byte_borders s @
                     [(last_byte_border s, last_byte_border s + br)],
                  num_characters_in_part := num_characters_in_part s @ [cip],
                  last_byte_border := last_byte_border s + br,
                  total_characters_read := total2, remainder := rem, fd := f3\<rparr>
            | (None, cip, br, total2, f3) \<Rightarrow>
                s\<lparr>byte_borders := byte_borders s @
                     [(last_byte_border s, last_byte_border s + br)],
                  num_characters_in_part := num_characters_in_part s @ [cip],
                  total_characters_read := total2, fd := f3\<rparr>))"

definition gb_init :: "ustr \<Rightarrow> gb_state" where
  "gb_init file = \<lparr>byte_borders = [], num_characters_in_part = [], last_byte_border = 0,
     total_characters_read = 0, remainder = [], fd = file\<rparr>"

text \<open>
  \<open>get_borders_with_documents_intact(file_path, num_parts)\<close>; the file is given by its
  content. \<open>length // num_parts\<close> raises \<open>ZeroDivisionError\<close> for \<open>num_parts = 0\<close>, and
  \<open>range(num_parts)\<close> is empty for a negative \<open>num_parts\<close>.
\<close>

definition get_borders_with_documents_intact ::
  "ustr \<Rightarrow> int \<Rightarrow> error + ((nat \<times> nat) list \<times> nat list)" where
  "get_borders_with_documents_intact file num_parts =
     (if num_parts = 0 then Inl ZeroDivisionError
      else
        (let len = count_characters_in_file file;
             part_size = int len div num_parts;
             s = fold (part_step part_size) [0..<nat num_parts] (gb_init file)
         in Inr (byte_borders s, num_characters_in_part s)))"

text \<open>A file of six one-line pages, 48 ASCII characters.\<close>

definition six_pages :: ustr where
  "six_pages = u ''<page>1\<newline><page>1\<newline><page>1\<newline><page>1\<newline><page>1\<newline><page>1\<newline>''"

text \<open>The state after \<open>k\<close> iterations on the empty file.\<close>

definition empty_after :: "nat \<Rightarrow> gb_state" where
  "empty_after k = \<lparr>byte_borders = replicate k (0, 0),
     num_characters_in_part = replicate k 0, last_byte_border = 0,
     total_characters_read = 0, remainder = [], fd = []\<rparr>"

section \<open>Words and segments\<close>

text \<open>
  Modelled from the spec: the regular expression
  \<open>small.WORD_WITH_PRECEDING_AND_FOLLOWING_PUNCTUATION\<close> and the character class \<open>WC\<close> are
  defined in a module that is not among the sources. The spec describes the expression as
  "a single regex matching a token with its immediately preceding/following punctuation";
  it is modelled as \<open>[^WC]*[WC]+[^WC]*\<close>, with the class \<open>WC\<close> a parameter \<open>wc\<close>.
  \<open>word_matches wc text\<close> is the list of \<open>m.group(0)\<close> for \<open>m\<close> in \<open>finditer(text)\<close>: the
  scan skips a run of non-word characters, takes a non-empty run of word characters and the
  run of non-word characters after it; without a word character there is no further match.
\<close>

function word_matches :: "('a \<Rightarrow> bool) \<Rightarrow> 'a list \<Rightarrow> 'a list list" where
  "word_matches wc text =
     (let pre = takeWhile (\<lambda>c. \<not> wc c) text;
          r1 = dropWhile (\<lambda>c. \<not> wc c) text;
          w = takeWhile wc r1;
          r2 = dropWhile wc r1;
          post = takeWhile (\<lambda>c. \<not> wc c) r2;
          r3 = dropWhile (\<lambda>c. \<not> wc c) r2
      in if w = [] then [] else (pre @ w @ post) # word_matches wc r3)"
  by pat_completeness auto
termination
proof (relation "measure (\<lambda>(wc, text). length text)", goal_cases)
  case 1
  show ?case by simp
next
  case (2 wc t pre r1 w r2 post r3)
  have "length r3 \<le> length r2"
    using 2 by (simp add: length_dropWhile_le)
  moreover have "length r2 < length r1"
  proof -
    from 2 have "w \<noteq> []" by simp
    then have "length (takeWhile wc r1) > 0" using 2 by simp
    moreover have "length r1 = length (takeWhile wc r1) + length (dropWhile wc r1)"
      by (metis length_append takeWhile_dropWhile_id)
    ultimately show ?thesis using 2 by simp
  qed
  moreover have "length r1 \<le> length t"
    using 2 by (simp add: length_dropWhile_le)
  ultimately show ?case by simp
qed

declare word_matches.simps [simp del]

text \<open>\<open>count_words(text)\<close>: \<open>len(findall(text))\<close>.\<close>

definition count_words :: "('a \<Rightarrow> bool) \<Rightarrow> 'a list \<Rightarrow> nat" where
  "count_words wc text = length (word_matches wc text)"

text \<open>The loop of \<open>cut_segment\<close> over \<open>enumerate(finditer(text))\<close>, from index \<open>word_i\<close>.\<close>

fun cut_loop :: "nat \<Rightarrow> int \<Rightarrow> int \<Rightarrow> 'a list list \<Rightarrow> 'a list \<Rightarrow> 'a list" where
  "cut_loop word_i shift num_words_in_segment [] segment = segment"
| "cut_loop word_i shift num_words_in_segment (m # ms) segment =
     (if int word_i < shift then cut_loop (Suc word_i) shift num_words_in_segment ms segment
      else if int word_i \<ge> num_words_in_segment + shift then segment
      else cut_loop (Suc word_i) shift num_words_in_segment ms (segment @ m))"

definition cut_segment :: "('a \<Rightarrow> bool) \<Rightarrow> 'a list \<Rightarrow> int \<Rightarrow> int \<Rightarrow> 'a list" where
  "cut_segment wc text shift num_words_in_segment =
     cut_loop 0 shift num_words_in_segment (word_matches wc text) []"

text \<open>\<open>s.rstrip(chars)\<close> and \<open>strip_segment\<close>. The substitution of
  \<open>FORBIDDEN_PUNCTUATION_IN_THE_START_OF_SEGMENT = '^[^WC]+'\<close> by the empty string removes
  the run of non-word characters at the start of the string.\<close>

definition rstrip :: "'a list \<Rightarrow> 'a list \<Rightarrow> 'a list" where
  "rstrip chars s = rev (dropWhile (\<lambda>c. c \<in> set chars) (rev s))"

definition strip_segment :: "(char \<Rightarrow> bool) \<Rightarrow> string \<Rightarrow> string" where
  "strip_segment wc segment =
     (let s1 = rstrip ''-'' segment;
          s2 = (if suffix [CHR '' '', CHR 0x22] s1 \<or> suffix ''('' s1
                then rstrip [CHR 0x22, CHR ''(''] s1 else s1);
          s3 = rstrip '' '' s2
      in dropWhile (\<lambda>c. \<not> wc c) s3)"


text \<open>The shape of a list of consecutive matches, used in the proofs: every element is
  a match, ends outside the class when another follows, and every element but the first
  starts with a word character.\<close>

definition is_tok :: "('a \<Rightarrow> bool) \<Rightarrow> 'a list \<Rightarrow> bool" where
  "is_tok wc t \<longleftrightarrow> (\<exists>pre w post. t = pre @ w @ post \<and> list_all (\<lambda>c. \<not> wc c) pre \<and>
     w \<noteq> [] \<and> list_all wc w \<and> list_all (\<lambda>c. \<not> wc c) post)"

fun chain :: "('a \<Rightarrow> bool) \<Rightarrow> 'a list list \<Rightarrow> bool" where
  "chain wc [] = True"
| "chain wc [t] = is_tok wc t"
| "chain wc (t # t' # ts) =
     (is_tok wc t \<and> \<not> wc (last t) \<and> wc (hd t') \<and> chain wc (t' # ts))"


section \<open>Splitting strings\<close>

lemma find_sub_bound: "find_sub pat s = Some i \<Longrightarrow> i + length pat \<le> length s"
proof (induction s arbitrary: i)
  case Nil
  then show ?case by (simp split: if_splits)
next
  case (Cons x xs)
  show ?case
  proof (cases "prefix pat (x # xs)")
    case True
    with Cons.prems have "i = 0" by simp
    moreover from True have "length pat \<le> length (x # xs)" by (rule prefix_length_le)
    ultimately show ?thesis by simp
  next
    case False
    with Cons.prems obtain j where "find_sub pat xs = Some j" "i = Suc j" by auto
    with Cons.IH show ?thesis by simp
  qed
qed

text \<open>\<open>s.split(sep)\<close> for a non-empty separator (Python raises \<open>ValueError\<close> for an empty
  one; every separator used here is a literal), and \<open>s.count(sep)\<close>.\<close>

function py_split :: "'a list \<Rightarrow> 'a list \<Rightarrow> 'a list list" where
  "py_split sep s =
     (case find_sub sep s of
        None \<Rightarrow> [s]
      | Some i \<Rightarrow> if sep = [] then [s]
                  else take i s # py_split sep (drop (i + length sep) s))"
  by pat_completeness auto
termination
proof (relation "measure (\<lambda>(sep, s). length s)", goal_cases)
  case 1
  show ?case by simp
next
  case (2 sep s i)
  then have "i + length sep \<le> length s" by (simp add: find_sub_bound)
  with 2 show ?case by (cases sep) simp_all
qed

declare py_split.simps [simp del]

function count_sub :: "'a list \<Rightarrow> 'a list \<Rightarrow> nat" where
  "count_sub sep s =
     (case find_sub sep s of
        None \<Rightarrow> 0
      | Some i \<Rightarrow> if sep = [] then length s + 1
                  else 1 + count_sub sep (drop (i + length sep) s))"
  by pat_completeness auto
termination
proof (relation "measure (\<lambda>(sep, s). length s)", goal_cases)
  case 1
  show ?case by simp
next
  case (2 sep s i)
  then have "i + length sep \<le> length s" by (simp add: find_sub_bound)
  with 2 show ?case by (cases sep) simp_all
qed

declare count_sub.simps [simp del]

text \<open>The text before and after the first occurrence of a separator.\<close>

definition before_first :: "'a list \<Rightarrow> 'a list \<Rightarrow> 'a list" where
  "before_first sep s = (case find_sub sep s of None \<Rightarrow> s | Some i \<Rightarrow> take i s)"

definition after_first :: "'a list \<Rightarrow> 'a list \<Rightarrow> 'a list" where
  "after_first sep s = (case find_sub sep s of None \<Rightarrow> [] | Some i \<Rightarrow> drop (i + length sep) s)"

section \<open>UN extractor: the body of a file\<close>

text \<open>
  The start of \<open>PreprocessUNWorker.__call__\<close>, up to \<open>body = body_split_2[0]\<close>. \<open>text[-1]\<close>
  raises \<open>IndexError\<close> on an empty file. The rest of the method calls cleaning functions of
  modules that are not among the sources.
\<close>

definition un_worker_body :: "string \<Rightarrow> string \<Rightarrow> error + string" where
  "un_worker_body file txt =
     (if txt = [] then Inl IndexError
      else
        (let body_split_1 = py_split ''<body>'' txt
         in if length body_split_1 \<noteq> 2
            then Inl (ValueError_body_tags (int (length body_split_1) - 1) file)
            else
              (let body_split_2 = py_split ''</body>'' (body_split_1 ! 1)
               in if length body_split_2 \<noteq> 2
                  then Inl (ValueError_body_close_tags (int (length body_split_2) - 1) file)
                  else Inr (body_split_2 ! 0))))"


section \<open>Tatoeba extractor\<close>

text \<open>\<open>c.isspace()\<close> for the code points below 256, and \<open>line.split()\<close>: the maximal runs
  of characters that are not whitespace.\<close>

definition is_space :: "char \<Rightarrow> bool" where
  "is_space c = (let n = (of_char c :: nat)
                 in (9 \<le> n \<and> n \<le> 13) \<or> (28 \<le> n \<and> n \<le> 32) \<or> n = 133 \<or> n = 160)"

function split_ws :: "string \<Rightarrow> string list" where
  "split_ws s =
     (let r = dropWhile is_space s
      in if r = [] then []
         else takeWhile (\<lambda>c. \<not> is_space c) r # split_ws (dropWhile (\<lambda>c. \<not> is_space c) r))"
  by pat_completeness auto
termination
proof (relation "measure length", goal_cases)
  case 1
  show ?case by simp
next
  case (2 s r)
  then have "r \<noteq> []" by simp
  then have "\<not> is_space (hd r)"
    using 2 hd_dropWhile [of is_space s] by blast
  with \<open>r \<noteq> []\<close> have "length (dropWhile (\<lambda>c. \<not> is_space c) r) < length r"
    by (cases r) (simp_all add: le_imp_less_Suc length_dropWhile_le)
  moreover have "length r \<le> length s"
    using 2 by (simp add: length_dropWhile_le)
  ultimately show ?case by simp
qed

declare split_ws.simps [simp del]

text \<open>\<open>sep.join(xs)\<close>.\<close>

fun join :: "'a list \<Rightarrow> 'a list list \<Rightarrow> 'a list" where
  "join sep [] = []"
| "join sep [x] = x"
| "join sep (x # y # ys) = x @ sep @ join sep (y # ys)"

text \<open>A document record as the extractors build it, and \<open>preprocess_tatoeba\<close>. The file is
  the list of its lines. \<open>big.write_docs_to_file(prepared_docs, document_dir / '<file_id>.xml')\<close>
  is a function of a module that is not among the sources; the model returns what is
  passed to it (the file id and the documents) next to the returned map.\<close>

record doc =
  doc_text :: string
  start_line :: nat
  end_line :: nat
  source :: string
  title :: string

definition preprocess_tatoeba ::
  "string list \<Rightarrow> string \<Rightarrow> int \<Rightarrow> int \<Rightarrow> (int \<times> (int \<times> doc) list) \<times> (int \<times> int) list" where
  "preprocess_tatoeba file file_path doc_id file_id =
     (let lines = map (\<lambda>line. join '' '' (drop 2 (split_ws line))) file;
          txt = join [CHR 0x0A] lines;
          prepared_docs = [(doc_id, \<lparr>doc_text = txt, start_line = 0, end_line = length lines,
             source = file_path, title = ''tatoeba''\<rparr>)]
      in ((file_id, prepared_docs), [(doc_id, file_id)]))"


section \<open>SegmentSampler: how many dev and test segments to cut from each shard\<close>

text \<open>
  The loop of \<open>get_max_allowed_segments_for_text\<close>: \<open>sent_i\<close> runs from the last sentence
  down while \<open>num_words < max_segment_length\<close>. The list holds the sentences
  \<open>sentences[sent_i], sentences[sent_i - 1], ..., sentences[0]\<close>; the result is
  \<open>(sent_i + 1, num_words)\<close>.
\<close>

fun max_allowed_loop :: "('a \<Rightarrow> bool) \<Rightarrow> int \<Rightarrow> 'a list list \<Rightarrow> int \<Rightarrow> nat \<times> int" where
  "max_allowed_loop wc max_segment_length [] num_words = (0, num_words)"
| "max_allowed_loop wc max_segment_length (s # ss) num_words =
     (if num_words < max_segment_length
      then max_allowed_loop wc max_segment_length ss (num_words + int (count_words wc s))
      else (length (s # ss), num_words))"

text \<open>\<open>get_max_allowed_segments_for_text(text, max_segment_length)\<close>, given
  \<open>sentences = text.splitlines()\<close>.\<close>

definition get_max_allowed_segments_for_text :: "('a \<Rightarrow> bool) \<Rightarrow> 'a list list \<Rightarrow> int \<Rightarrow> int" where
  "get_max_allowed_segments_for_text wc sentences max_segment_length =
     (let (rest, num_words) = max_allowed_loop wc max_segment_length (rev sentences) 0
      in if num_words < max_segment_length then 0 else int rest)"

text \<open>A shard file: its size in bytes (\<open>f.stat().st_size\<close>) and the lines of the text of its
  documents.\<close>

record 'a shard =
  st_size :: nat
  sentences :: "'a list list"

text \<open>The loop that lowers the sizes while \<open>sum_ > size\<close>, over \<open>permutation[i:]\<close>. An index
  outside \<open>sizes\<close> raises \<open>IndexError\<close>.\<close>

fun decrease_loop :: "int \<Rightarrow> nat list \<Rightarrow> int list \<Rightarrow> int \<Rightarrow> error + (int list \<times> int)" where
  "decrease_loop sz [] sizes sum_sizes = Inr (sizes, sum_sizes)"
| "decrease_loop sz (p # ps) sizes sum_sizes =
     (if sum_sizes > sz then
        (if p \<ge> length sizes then Inl IndexError
         else if sizes ! p > 0
         then decrease_loop sz ps (sizes[p := sizes ! p - 1]) (sum_sizes - 1)
         else decrease_loop sz ps sizes sum_sizes)
      else Inr (sizes, sum_sizes))"

text \<open>One run of \<open>for j in permutation\<close> in the branch \<open>sum_ < size\<close>; the result carries
  \<open>was_increase\<close>. The \<open>break\<close> ends the run with \<open>sum_ = size\<close>.\<close>

fun increase_pass ::
  "int \<Rightarrow> int list \<Rightarrow> nat list \<Rightarrow> int list \<Rightarrow> int \<Rightarrow> bool \<Rightarrow> error + (int list \<times> int \<times> bool)" where
  "increase_pass sz maxs [] sizes sum_sizes was_increase = Inr (sizes, sum_sizes, was_increase)"
| "increase_pass sz maxs (j # js) sizes sum_sizes was_increase =
     (if j \<ge> length sizes \<or> j \<ge> length maxs then Inl IndexError
      else if sizes ! j < maxs ! j then
        (if sum_sizes + 1 \<ge> sz
         then (if sum_sizes + 1 = sz then Inr (sizes[j := sizes ! j + 1], sum_sizes + 1, True)
               else Inl AssertionError)
         else increase_pass sz maxs js (sizes[j := sizes ! j + 1]) (sum_sizes + 1) True)
      else increase_pass sz maxs js sizes sum_sizes was_increase)"

lemma increase_pass_sum:
  "increase_pass sz maxs js sizes sum_sizes was = Inr (sizes', sm', was') \<Longrightarrow>
   sum_sizes \<le> sm' \<and> (was' \<longrightarrow> was \<or> sum_sizes < sm')"
proof (induction js arbitrary: sizes sum_sizes was)
  case Nil
  then show ?case by simp
next
  case (Cons j js)
  show ?case
  proof (cases "j \<ge> length sizes \<or> j \<ge> length maxs")
    case True
    with Cons.prems show ?thesis by simp
  next
    case False
    show ?thesis
    proof (cases "sizes ! j < maxs ! j")
      case lt: True
      show ?thesis
      proof (cases "sum_sizes + 1 \<ge> sz")
        case True
        with Cons.prems False lt show ?thesis by (simp split: if_splits)
      next
        case nb: False
        with Cons.prems False lt have
          "increase_pass sz maxs js (sizes[j := sizes ! j + 1]) (sum_sizes + 1) True =
             Inr (sizes', sm', was')"
          by simp
        from Cons.IH [OF this] show ?thesis by simp
      qed
    next
      case ge: False
      with Cons.prems False have "increase_pass sz maxs js sizes sum_sizes was = Inr (sizes', sm', was')"
        by simp
      from Cons.IH [OF this] show ?thesis .
    qed
  qed
qed

text \<open>The loop \<open>while sum_ < size and was_increase\<close>.\<close>

function increase_loop ::
  "int \<Rightarrow> int list \<Rightarrow> nat list \<Rightarrow> int list \<Rightarrow> int \<Rightarrow> bool \<Rightarrow> error + (int list \<times> int)" where
  "increase_loop sz maxs permutation sizes sum_sizes was_increase =
     (if sum_sizes < sz \<and> was_increase then
        (case increase_pass sz maxs permutation sizes sum_sizes False of
           Inl e \<Rightarrow> Inl e
         | Inr (sizes', sm', was') \<Rightarrow> increase_loop sz maxs permutation sizes' sm' was')
      else Inr (sizes, sum_sizes))"
  by pat_completeness auto
termination
proof (relation "measure (\<lambda>(sz, maxs, permutation, sizes, sum_sizes, was).
    if was then nat (sz - sum_sizes) + 1 else 0)", goal_cases)
  case 1
  show ?case by simp
next
  case (2 sz maxs permutation sizes sum_sizes was x2 sizes' y sm' was')
  then have "increase_pass sz maxs permutation sizes sum_sizes False = Inr (sizes', sm', was')"
    by simp
  from increase_pass_sum [OF this] 2 show ?case by auto
qed

declare increase_loop.simps [simp del]

text \<open>
  \<open>get_how_many_segments_to_cut_by_files(files, size, max_segment_length, num_jobs)\<close>.
  \<open>round_frac s total_size size\<close> stands for the floating-point computation
  \<open>round((s / total_size) * size)\<close>, and \<open>permutation\<close> for the result of
  \<open>random.sample(list(range(len(sizes))), len(sizes))\<close>. The division raises
  \<open>ZeroDivisionError\<close> when the files are all empty. The three \<open>assert\<close> statements at the
  end raise \<open>AssertionError\<close>.
\<close>

definition max_possible_segments_per_file :: "('a \<Rightarrow> bool) \<Rightarrow> 'a shard list \<Rightarrow> int \<Rightarrow> int list" where
  "max_possible_segments_per_file wc files max_segment_length =
     map (\<lambda>f. get_max_allowed_segments_for_text wc (sentences f) max_segment_length) files"

definition get_how_many_segments_to_cut_by_files ::
  "('a \<Rightarrow> bool) \<Rightarrow> (int \<Rightarrow> int \<Rightarrow> int \<Rightarrow> int) \<Rightarrow> nat list \<Rightarrow> 'a shard list \<Rightarrow> int \<Rightarrow> int \<Rightarrow>
   error + int list" where
  "get_how_many_segments_to_cut_by_files wc round_frac permutation files sz max_segment_length =
     (let stats = map (\<lambda>f. int (st_size f)) files;
          total_size = sum_list stats
      in if files \<noteq> [] \<and> total_size = 0 then Inl ZeroDivisionError
         else
           (let sizes0 = map (\<lambda>s. round_frac s total_size sz) stats;
                maxs = max_possible_segments_per_file wc files max_segment_length;
                sizes1 = map (\<lambda>(s, m). if s > m then m else s) (zip sizes0 maxs);
                sum_sizes = sum_list sizes1;
                r = (if sum_sizes > sz then decrease_loop sz permutation sizes1 sum_sizes
                     else if sum_sizes < sz then
                       (case increase_loop sz maxs permutation sizes1 sum_sizes True of
                          Inl e \<Rightarrow> Inl e
                        | Inr (sizes2, sum2) \<Rightarrow>
                            if sum2 < sz then Inl (ValueError_not_enough_files sz sum2)
                            else Inr (sizes2, sum2))
                     else Inr (sizes1, sum_sizes))
            in case r of
                 Inl e \<Rightarrow> Inl e
               | Inr (sizes, s) \<Rightarrow>
                   if length sizes \<noteq> length files then Inl AssertionError
                   else if \<not> list_all (\<lambda>s. s \<ge> 0) sizes then Inl AssertionError
                   else if sum_list sizes \<noteq> sz then Inl AssertionError
                   else Inr sizes))"

text \<open>The invariant of the loops: every size is at most the maximum of its file.\<close>

definition within :: "int list \<Rightarrow> int list \<Rightarrow> bool" where
  "within maxs sizes \<longleftrightarrow> length sizes = length maxs \<and> (\<forall>i<length sizes. sizes ! i \<le> maxs ! i)"


text \<open>
  What the results below ask of the rounding: for every file, \<open>round_frac s total_size size\<close>
  is not negative and exceeds the exact quotient \<open>s * size / total_size\<close> by at most one.
  \<open>round\<close> applied to the floating-point product is within one half of that product.
\<close>

definition round_close :: "(int \<Rightarrow> int \<Rightarrow> int \<Rightarrow> int) \<Rightarrow> 'a shard list \<Rightarrow> int \<Rightarrow> bool" where
  "round_close round_frac files sz =
     (let total_size = sum_list (map (\<lambda>f. int (st_size f)) files)
      in list_all (\<lambda>f. 0 \<le> round_frac (int (st_size f)) total_size sz \<and>
           total_size * round_frac (int (st_size f)) total_size sz
             \<le> int (st_size f) * sz + total_size) files)"

text \<open>A value of the parameter \<open>round_frac\<close> for the examples: the exact quotient
  \<open>s * size / total_size\<close> rounded to the nearest integer, halves to the even one. It is
  not the floating-point computation of the code, which can differ from it when the exact
  product lies at a half (for \<open>s = 15\<close>, \<open>total_size = 22\<close>, \<open>size = 11\<close> it
  gives 8 and the code gives 7); at the inputs of the examples below, where \<open>s / total_size\<close>
  is \<open>1 / 2\<close> or \<open>1 / 4\<close>, the floating-point operations are exact and the two agree.\<close>

definition exact_round_frac :: "int \<Rightarrow> int \<Rightarrow> int \<Rightarrow> int" where
  "exact_round_frac s total_size sz =
     (let q = (s * sz) div total_size; r = (s * sz) mod total_size
      in if 2 * r < total_size then q
         else if 2 * r > total_size then q + 1
         else if even q then q else q + 1)"

definition three_sentences :: "char shard" where
  "three_sentences = \<lparr>st_size = 10, sentences = [''a b'', ''c d'', ''e f'']\<rparr>"


section \<open>DocumentStore: merging small shards\<close>

text \<open>
  A Python \<open>dict\<close> is an association list in insertion order; \<open>AList.update\<close> replaces the
  value of a present key in place and appends an absent key, \<open>AList.delete\<close> is \<open>del\<close>.
  \<open>reverse_doc_id_to_file_i\<close> and \<open>rev_rev_doc_id_to_file_i\<close>:
\<close>

definition reverse_step :: "int \<times> int \<Rightarrow> (int \<times> int list) list \<Rightarrow> (int \<times> int list) list" where
  "reverse_step kv rv =
     (case map_of rv (snd kv) of
        Some ks \<Rightarrow> AList.update (snd kv) (ks @ [fst kv]) rv
      | None \<Rightarrow> AList.update (snd kv) [fst kv] rv)"

definition reverse_doc_id_to_file_i :: "(int \<times> int) list \<Rightarrow> (int \<times> int list) list" where
  "reverse_doc_id_to_file_i doc_id_to_file_i = fold reverse_step doc_id_to_file_i []"

definition rev_rev_doc_id_to_file_i :: "(int \<times> int list) list \<Rightarrow> (int \<times> int) list" where
  "rev_rev_doc_id_to_file_i rv =
     fold (\<lambda>(k, v) rev_rev. fold (\<lambda>vv rev_rev. AList.update vv k rev_rev) v rev_rev) rv []"

text \<open>
  The loop \<open>for i in range(1, len(files))\<close> of \<open>merge_small_files\<close>. A shard file is the pair
  of the integer of its stem and its size in bytes. \<open>kept\<close> holds the files that were closed
  and stay on disk, with their sizes after the appends; the files merged into another one
  are unlinked. \<open>rev[...]\<close> raises \<open>KeyError\<close> for a file without documents in the map.
\<close>

fun merge_loop ::
  "nat \<Rightarrow> int \<Rightarrow> nat \<Rightarrow> (int \<times> int list) list \<Rightarrow> (int \<times> nat) list \<Rightarrow> (int \<times> nat) list \<Rightarrow>
   error + ((int \<times> int list) list \<times> (int \<times> nat) list)" where
  "merge_loop max_size curr_file_i curr_size rv kept [] =
     Inr (rv, kept @ [(curr_file_i, curr_size)])"
| "merge_loop max_size curr_file_i curr_size rv kept ((file_i, st) # files) =
     (if curr_size \<ge> max_size
      then merge_loop max_size file_i st rv (kept @ [(curr_file_i, curr_size)]) files
      else
        (case map_of rv curr_file_i of
           None \<Rightarrow> Inl KeyError
         | Some cur \<Rightarrow>
             (case map_of rv file_i of
                None \<Rightarrow> Inl KeyError
              | Some ds \<Rightarrow>
                  merge_loop max_size curr_file_i (curr_size + st)
                    (AList.delete file_i (AList.update curr_file_i (cur @ ds) rv)) kept files)))"

text \<open>
  \<open>merge_small_files(document_dir, doc_id_to_file_i)\<close>. The directory is the list of its shard
  files (integer stem, suffix \<open>.xml\<close>), in any order. The result is the returned map and
  the shard files left on disk. \<open>max\<close> of an empty list raises \<open>ValueError\<close>.
\<close>

definition merge_small_files ::
  "(int \<times> nat) list \<Rightarrow> (int \<times> int) list \<Rightarrow> error + ((int \<times> int) list \<times> (int \<times> nat) list)" where
  "merge_small_files document_dir doc_id_to_file_i =
     (let rv = reverse_doc_id_to_file_i doc_id_to_file_i;
          files = sort_key fst document_dir
      in case files of
           [] \<Rightarrow> Inl ValueError_empty_max
         | (file_0, st_0) # rest \<Rightarrow>
             (let max_size = fold max (map snd rest) st_0
              in case merge_loop max_size file_0 st_0 rv [] rest of
                   Inl e \<Rightarrow> Inl e
                 | Inr (rv', kept) \<Rightarrow> Inr (rev_rev_doc_id_to_file_i rv', kept)))"

text \<open>The documents that a map from files to lists of documents holds, and the bound that
  the sizes of the files left on disk keep.\<close>

definition docs_map :: "(int \<rightharpoonup> int list) \<Rightarrow> int set" where
  "docs_map m = {k. \<exists>f ds. m f = Some ds \<and> k \<in> set ds}"

definition size_ok :: "nat \<Rightarrow> nat \<Rightarrow> bool" where
  "size_ok mx s \<longleftrightarrow> s \<le> mx \<or> s < 2 * mx"


section \<open>Progress: the consumer of the progress queues\<close>

text \<open>
  A progress bar of \<open>tqdm\<close>: its counter \<open>n\<close>, which starts at 0, its \<open>total\<close>, and whether
  \<open>close()\<close> was called. \<open>update(0)\<close> redraws the bar and changes none of them.
\<close>

record bar =
  bar_n :: int
  bar_total :: int
  bar_closed :: bool

text \<open>
  The state of \<open>show_prog\<close>: the bars \<open>prog\<close>, the list \<open>finished\<close>, the content of every
  queue of \<open>q\<close> (the values put into it and not yet taken, oldest first), and the warnings
  logged, each with the two numbers of its message, \<open>prog[i].n\<close> and \<open>total_num_lines[i]\<close>.
\<close>

record consumer =
  prog :: "bar list"
  finished :: "bool list"
  queues :: "int list list"
  warnings :: "(int \<times> int) list"

text \<open>
  \<open>v = qq.get()\<close> followed by \<open>while v != -1: to_add += v; v = qq.get()\<close>. \<open>get()\<close> has no
  timeout: it waits until a value is in the queue and never raises \<open>Empty\<close>. On a queue
  that holds no \<open>-1\<close> and gets no further value the loop does not return: the result is
  \<open>None\<close>. Otherwise the result is \<open>to_add\<close> and the rest of the queue.
\<close>

fun drain :: "int \<Rightarrow> int list \<Rightarrow> (int \<times> int list) option" where
  "drain to_add [] = None"
| "drain to_add (v # vs) = (if v \<noteq> - 1 then drain (to_add + v) vs else Some (to_add, vs))"

text \<open>The branch \<open>if to_add < 0\<close>.\<close>

definition finalize_bar :: "int list \<Rightarrow> nat \<Rightarrow> consumer \<Rightarrow> consumer" where
  "finalize_bar total_num_lines i st =
     (let b = prog st ! i;
          w = (if bar_n b < total_num_lines ! i
               then warnings st @ [(bar_n b, total_num_lines ! i)] else warnings st)
      in st\<lparr>warnings := w, finished := (finished st)[i := True],
            prog := (prog st)[i := b\<lparr>bar_closed := True\<rparr>]\<rparr>)"

text \<open>\<open>prog[i].n += to_add\<close>, \<open>prog[i].update(0)\<close> and the test \<open>prog[i].n >= total_num_lines[i]\<close>.\<close>

definition add_to_bar :: "int list \<Rightarrow> nat \<Rightarrow> int \<Rightarrow> consumer \<Rightarrow> consumer" where
  "add_to_bar total_num_lines i to_add st =
     (let b = (prog st ! i)\<lparr>bar_n := bar_n (prog st ! i) + to_add\<rparr>;
          st' = st\<lparr>prog := (prog st)[i := b]\<rparr>
      in if bar_n b \<ge> total_num_lines ! i
         then st'\<lparr>finished := (finished st')[i := True],
                  prog := (prog st')[i := b\<lparr>bar_closed := True\<rparr>]\<rparr>
         else st')"

text \<open>
  The body of \<open>for i, qq in enumerate(q)\<close>. After the inner loop \<open>to_add\<close> is set to \<open>-1\<close>,
  whatever was added to it. \<open>prog[i]\<close> and \<open>total_num_lines[i]\<close> raise \<open>IndexError\<close> when
  there are fewer bars or totals than queues.
\<close>

definition for_body :: "int list \<Rightarrow> nat \<Rightarrow> consumer \<Rightarrow> (error + consumer) option" where
  "for_body total_num_lines i st =
     (case drain 0 (queues st ! i) of
        None \<Rightarrow> None
      | Some (added, rest) \<Rightarrow>
          (let to_add = - 1 :: int;
               st1 = st\<lparr>queues := (queues st)[i := rest]\<rparr>
           in if i \<ge> length (prog st1) \<or> i \<ge> length total_num_lines then Some (Inl IndexError)
              else Some (Inr (add_to_bar total_num_lines i to_add
                     (if to_add < 0 then finalize_bar total_num_lines i st1 else st1)))))"

fun for_queues :: "int list \<Rightarrow> nat list \<Rightarrow> consumer \<Rightarrow> (error + consumer) option" where
  "for_queues total_num_lines [] st = Some (Inr st)"
| "for_queues total_num_lines (i # is) st =
     (case for_body total_num_lines i st of
        None \<Rightarrow> None
      | Some (Inl e) \<Rightarrow> Some (Inl e)
      | Some (Inr st') \<Rightarrow> for_queues total_num_lines is st')"

text \<open>The loop \<open>while True\<close>, left by \<open>break\<close> when \<open>all(finished)\<close>; \<open>None\<close> when it does not
  return.\<close>

partial_function (option) while_true :: "int list \<Rightarrow> consumer \<Rightarrow> (error + consumer) option" where
  "while_true total_num_lines st =
     (case for_queues total_num_lines [0..<length (queues st)] st of
        None \<Rightarrow> None
      | Some r \<Rightarrow>
          (case r of
             Inl e \<Rightarrow> Some (Inl e)
           | Inr st' \<Rightarrow>
               if list_all (\<lambda>b. b) (finished st') then Some (Inr st')
               else while_true total_num_lines st'))"

text \<open>\<open>show_prog(q, total_num_lines, descriptions, units)\<close>, with \<open>q\<close> given by the content of
  the queues.\<close>

definition show_prog ::
  "int list list \<Rightarrow> int list \<Rightarrow> string list \<Rightarrow> string list \<Rightarrow> (error + consumer) option" where
  "show_prog q total_num_lines descriptions units =
     while_true total_num_lines
       \<lparr>prog = map (\<lambda>(tt, dd, uu). \<lparr>bar_n = 0, bar_total = tt, bar_closed = False\<rparr>)
                 (zip total_num_lines (zip descriptions units)),
        finished = replicate (length q) False,
        queues = q,
        warnings = []\<rparr>"

text \<open>\<open>Progress.finish\<close> puts \<open>-1\<close> into every queue before it joins the consumer.\<close>

definition finish :: "int list list \<Rightarrow> int list list" where
  "finish progress_queues = map (\<lambda>vs. vs @ [- 1]) progress_queues"


(*DEFS-END*)

section \<open>Properties of the byte-range partitioner\<close>

lemma count_in_blocks_sum:
  "sum_list (count_in_blocks files sz) = (if sz = 0 then 0 else length files)"
proof (induction files sz rule: count_in_blocks.induct)
  case (1 files sz)
  show ?case
  proof (cases "take sz files = []")
    case True
    then show ?thesis by (subst count_in_blocks.simps) auto
  next
    case False
    then have "sum_list (count_in_blocks (drop sz files) sz) =
        (if sz = 0 then 0 else length (drop sz files))"
      using 1 by simp
    with False show ?thesis
      by (subst count_in_blocks.simps) (simp add: Let_def)
  qed
qed

lemma count_characters_in_file_length: "count_characters_in_file file = length file"
  by (simp add: count_characters_in_file_def count_in_blocks_sum BUFFER_SIZE_def)

text \<open>Every iteration appends exactly one range, so \<open>num_parts\<close> ranges are returned.\<close>

lemma length_part_step:
  "length (byte_borders (part_step ps i s)) = Suc (length (byte_borders s))"
proof -
  define read_size where "read_size = ps * (int i + 1) - int (total_characters_read s)"
  obtain cr br0 f1 where
    m: "move_by_n_characters_in_file (fd s) read_size BUFFER_SIZE = (cr, br0, f1)"
    by (cases "move_by_n_characters_in_file (fd s) read_size BUFFER_SIZE")
  obtain line f2 where r: "readline f1 = (line, f2)"
    by (cases "readline f1")
  obtain rem cip br t2 f3 where sc:
    "scan_lines line f2 (cr + length (remainder s)) (br0 + encode_len (remainder s))
       (total_characters_read s + (cr + length (remainder s)) + length line) =
     (rem, cip, br, t2, f3)"
    by (metis prod_cases5)
  show ?thesis
    by (cases rem) (simp_all add: part_step_def read_size_def [symmetric] m r sc Let_def)
qed

lemma length_fold_part_step:
  "length (byte_borders (fold (part_step ps) xs s)) = length xs + length (byte_borders s)"
  by (induction xs arbitrary: s) (simp_all add: length_part_step)

lemma get_borders_number_of_ranges:
  assumes "get_borders_with_documents_intact file num_parts = Inr (borders, chars)"
  shows "length borders = nat num_parts"
proof -
  from assms have "num_parts \<noteq> 0"
    by (auto simp: get_borders_with_documents_intact_def)
  with assms have "borders = byte_borders
      (fold (part_step (int (count_characters_in_file file) div num_parts))
         [0..<nat num_parts] (gb_init file))"
    by (simp add: get_borders_with_documents_intact_def Let_def)
  then show ?thesis
    by (simp add: length_fold_part_step gb_init_def)
qed

text \<open>The loops, one iteration at a time.\<close>

lemma scan_lines_Nil: "scan_lines [] f c b t = (None, c, b, t, f)"
  by (subst scan_lines.simps) simp

lemma scan_lines_found:
  "line \<noteq> [] \<Longrightarrow> find_sub page_mark line = Some p \<Longrightarrow>
   scan_lines line f c b t =
     (Some (drop p line), c + length (take p line), b + encode_len (take p line), t, f)"
  by (subst scan_lines.simps) simp

lemma scan_lines_next:
  "line \<noteq> [] \<Longrightarrow> find_sub page_mark line = None \<Longrightarrow>
   scan_lines line f c b t =
     scan_lines (fst (readline f)) (snd (readline f)) (c + length line) (b + encode_len line)
       (t + length (fst (readline f)))"
  by (subst scan_lines.simps) (simp add: split_beta)

lemma move_loop_done:
  "n \<le> int cr \<or> \<not> buffer \<Longrightarrow> move_loop f n bs buffer cr br = (cr, br, f)"
  by (subst move_loop.simps) auto

lemma move_loop_step:
  "int cr < n \<Longrightarrow>
   move_loop f n bs True cr br =
     move_loop (drop (min bs (nat (n - int cr))) f) n bs
       (take (min bs (nat (n - int cr))) f \<noteq> [])
       (cr + length (take (min bs (nat (n - int cr))) f))
       (br + encode_len (take (min bs (nat (n - int cr))) f))"
  by (subst move_loop.simps) (simp add: Let_def)

lemmas part_step_eval = part_step_def move_by_n_characters_in_file_def move_loop_done
  move_loop_step scan_lines_Nil scan_lines_found scan_lines_next BUFFER_SIZE_def encode_len_def
  utf8_len_def page_mark_def Let_def

lemma upt_0_3: "[0..<3] = [0, 1, 2::nat]"
  by (simp add: upt_conv_Cons)

text \<open>
  C1. The claim: for every file and every \<open>N \<ge> 1\<close> the \<open>N\<close> returned ranges are
  contiguous from byte 0 to the byte length of the file. The code at a file of six
  one-line pages \<open><page>1\<close> (48 bytes) and \<open>N = 3\<close>: the third range ends at byte 40, at
  the start of the sixth page, and the last 8 bytes of the file are in no range.
  \<open>total_characters_read\<close> counts the remainder of a cut line twice, so the last part
  stops short of the end of the file and is then cut at the next \<open><page\<close>. The proof
  follows the three iterations of the loop.
\<close>

theorem get_borders_last_range_short:
  "get_borders_with_documents_intact six_pages 3 =
     Inr ([(0, 16), (16, 32), (32, 40)], [16, 16, 8])
   \<and> encode_len six_pages = 48"
proof -
  have len: "length six_pages = 48"
    by (simp add: six_pages_def)
  have s1: "part_step 16 0 (gb_init six_pages) =
      \<lparr>byte_borders = [(0, 16)], num_characters_in_part = [16], last_byte_border = 16,
       total_characters_read = 24, remainder = u ''<page>1\<newline>'',
       fd = u ''<page>1\<newline><page>1\<newline><page>1\<newline>''\<rparr>"
    by (simp add: six_pages_def gb_init_def part_step_eval)
  have s2: "part_step 16 (Suc 0)
      \<lparr>byte_borders = [(0, 16)], num_characters_in_part = [16], last_byte_border = 16,
       total_characters_read = 24, remainder = u ''<page>1\<newline>'',
       fd = u ''<page>1\<newline><page>1\<newline><page>1\<newline>''\<rparr> =
      \<lparr>byte_borders = [(0, 16), (16, 32)], num_characters_in_part = [16, 16],
       last_byte_border = 32, total_characters_read = 48, remainder = u ''<page>1\<newline>'',
       fd = u ''<page>1\<newline>''\<rparr>"
    by (simp add: part_step_eval)
  have s3: "part_step 16 2
      \<lparr>byte_borders = [(0, 16), (16, 32)], num_characters_in_part = [16, 16],
       last_byte_border = 32, total_characters_read = 48, remainder = u ''<page>1\<newline>'',
       fd = u ''<page>1\<newline>''\<rparr> =
      \<lparr>byte_borders = [(0, 16), (16, 32), (32, 40)], num_characters_in_part = [16, 16, 8],
       last_byte_border = 40, total_characters_read = 64, remainder = u ''<page>1\<newline>'',
       fd = []\<rparr>"
    by (simp add: part_step_eval)
  have "fold (part_step 16) [0..<3] (gb_init six_pages) =
      part_step 16 2 (part_step 16 (Suc 0) (part_step 16 0 (gb_init six_pages)))"
    by (simp add: upt_0_3)
  then have "fold (part_step 16) [0..<3] (gb_init six_pages) =
      \<lparr>byte_borders = [(0, 16), (16, 32), (32, 40)], num_characters_in_part = [16, 16, 8],
       last_byte_border = 40, total_characters_read = 64, remainder = u ''<page>1\<newline>'',
       fd = []\<rparr>"
    by (simp only: s1 s2 s3)
  then have "get_borders_with_documents_intact six_pages 3 =
      Inr ([(0, 16), (16, 32), (32, 40)], [16, 16, 8])"
    by (simp add: get_borders_with_documents_intact_def count_characters_in_file_length len
        Let_def)
  moreover have "encode_len six_pages = 48"
    by (simp add: six_pages_def encode_len_def utf8_len_def)
  ultimately show ?thesis by simp
qed

lemma part_step_empty: "part_step 0 i (empty_after k) = empty_after (Suc k)"
  by (simp add: part_step_def empty_after_def move_by_n_characters_in_file_def encode_len_def
      move_loop_done scan_lines_Nil replicate_append_same)

lemma fold_part_step_empty: "fold (part_step 0) [0..<n] (gb_init []) = empty_after n"
proof (induction n)
  case 0
  show ?case by (simp add: gb_init_def empty_after_def)
next
  case (Suc n)
  then show ?case by (simp add: part_step_empty)
qed

text \<open>
  C7. The claim: for an empty file the function fails with a \<open>ValueError\<close>. The code has no
  \<open>raise\<close>: for one part it returns the single range \<open>(0, 0)\<close>.
\<close>

theorem empty_file_returns_ranges:
  "get_borders_with_documents_intact [] 1 = Inr ([(0, 0)], [0])"
  by (simp add: get_borders_with_documents_intact_def count_characters_in_file_length
      gb_init_def part_step_eval)

text \<open>
  C7, as amended: for an empty file and \<open>N \<ge> 1\<close> parts the function raises nothing and
  returns \<open>N\<close> ranges \<open>(0, 0)\<close> and \<open>N\<close> character counts 0.
\<close>

theorem empty_file_borders:
  "1 \<le> num_parts \<Longrightarrow>
   get_borders_with_documents_intact [] num_parts =
     Inr (replicate (nat num_parts) (0, 0), replicate (nat num_parts) 0)"
  by (simp add: get_borders_with_documents_intact_def count_characters_in_file_length
      fold_part_step_empty empty_after_def)

theorem empty_file_borders_witness:
  "(1::int) \<le> 3 \<and>
   get_borders_with_documents_intact [] 3 = Inr ([(0, 0), (0, 0), (0, 0)], [0, 0, 0])"
  using empty_file_borders [of 3] by (simp add: numeral_3_eq_3)

section \<open>Properties of words and segments\<close>

lemma dropWhile_starts:
  "dropWhile (\<lambda>c. \<not> P c) xs = [] \<or> P (hd (dropWhile (\<lambda>c. \<not> P c) xs))"
  by (induction xs) auto

text \<open>
  C10. For every string \<open>s\<close>, \<open>strip_segment(s)\<close> is empty or begins with a character of the
  class \<open>WC\<close>; \<open>cut_and_save_one_pass\<close> writes every segment as \<open>strip_segment(...) + '\n'\<close>.
  The class is a parameter.
\<close>

theorem strip_segment_starts_with_word_char:
  "strip_segment wc s = [] \<or> wc (hd (strip_segment wc s))"
  unfolding strip_segment_def Let_def by (rule dropWhile_starts)


lemma takeWhile_all_append:
  "list_all P xs \<Longrightarrow> ys = [] \<or> \<not> P (hd ys) \<Longrightarrow> takeWhile P (xs @ ys) = xs"
proof (induction xs)
  case Nil
  then show ?case by (cases ys) auto
next
  case (Cons x xs)
  then show ?case by simp
qed

lemma dropWhile_all_append:
  "list_all P xs \<Longrightarrow> ys = [] \<or> \<not> P (hd ys) \<Longrightarrow> dropWhile P (xs @ ys) = ys"
proof (induction xs)
  case Nil
  then show ?case by (cases ys) auto
next
  case (Cons x xs)
  then show ?case by simp
qed

lemma word_matches_Nil: "word_matches wc [] = []"
  by (subst word_matches.simps) simp

lemma word_matches_decomp:
  assumes pre: "list_all (\<lambda>c. \<not> wc c) pre" and w: "w \<noteq> []" "list_all wc w"
    and post: "list_all (\<lambda>c. \<not> wc c) post"
    and rest: "rest = [] \<or> wc (hd rest)" and sep: "post = [] \<longrightarrow> rest = []"
  shows "word_matches wc (pre @ w @ post @ rest) = (pre @ w @ post) # word_matches wc rest"
proof -
  let ?N = "\<lambda>c. \<not> wc c"
  from w have hw: "wc (hd w)" by (cases w) auto
  with w have h1: "w @ post @ rest = [] \<or> \<not> ?N (hd (w @ post @ rest))" by simp
  have a1: "takeWhile ?N (pre @ w @ post @ rest) = pre"
    using pre h1 by (rule takeWhile_all_append)
  have a2: "dropWhile ?N (pre @ w @ post @ rest) = w @ post @ rest"
    using pre h1 by (rule dropWhile_all_append)
  have h2: "post @ rest = [] \<or> \<not> wc (hd (post @ rest))"
  proof (cases post)
    case Nil
    with sep show ?thesis by simp
  next
    case (Cons p ps)
    with post show ?thesis by simp
  qed
  have a3: "takeWhile wc (w @ post @ rest) = w"
    using w(2) h2 by (rule takeWhile_all_append)
  have a4: "dropWhile wc (w @ post @ rest) = post @ rest"
    using w(2) h2 by (rule dropWhile_all_append)
  from rest have h3: "rest = [] \<or> \<not> ?N (hd rest)" by simp
  have a5: "takeWhile ?N (post @ rest) = post"
    using post h3 by (rule takeWhile_all_append)
  have a6: "dropWhile ?N (post @ rest) = rest"
    using post h3 by (rule dropWhile_all_append)
  have "word_matches wc (pre @ w @ post @ rest) =
      (let pre' = takeWhile ?N (pre @ w @ post @ rest);
           r1 = dropWhile ?N (pre @ w @ post @ rest);
           w' = takeWhile wc r1;
           r2 = dropWhile wc r1;
           post' = takeWhile ?N r2;
           r3 = dropWhile ?N r2
       in if w' = [] then [] else (pre' @ w' @ post') # word_matches wc r3)"
    by (rule word_matches.simps)
  also have "\<dots> = (pre @ w @ post) # word_matches wc rest"
    unfolding a1 a2 Let_def a3 a4 a5 a6 using w(1) by simp
  finally show ?thesis .
qed


lemma is_tok_ne: "is_tok wc t \<Longrightarrow> t \<noteq> []"
  by (auto simp: is_tok_def)

lemma word_matches_tok:
  assumes "is_tok wc t"
  shows "word_matches wc t = [t]"
proof -
  from assms obtain pre w post where t: "t = pre @ w @ post"
    and p: "list_all (\<lambda>c. \<not> wc c) pre" "w \<noteq> []" "list_all wc w" "list_all (\<lambda>c. \<not> wc c) post"
    unfolding is_tok_def by blast
  have "word_matches wc (pre @ w @ post @ []) = (pre @ w @ post) # word_matches wc []"
    using p by (intro word_matches_decomp) simp_all
  with t show ?thesis by (simp add: word_matches_Nil)
qed

lemma word_matches_step:
  assumes tok: "is_tok wc t" and nl: "\<not> wc (last t)" and hd: "wc (hd rest)"
  shows "word_matches wc (t @ rest) = t # word_matches wc rest"
proof -
  from tok obtain pre w post where t: "t = pre @ w @ post"
    and p: "list_all (\<lambda>c. \<not> wc c) pre" "w \<noteq> []" "list_all wc w" "list_all (\<lambda>c. \<not> wc c) post"
    unfolding is_tok_def by blast
  have post: "post \<noteq> []"
  proof
    assume "post = []"
    with t p(2) have "last t = last w" by simp
    moreover from p(2) have "last w \<in> set w" by simp
    with p(3) have "wc (last w)" by (simp add: list_all_iff)
    ultimately show False using nl by simp
  qed
  have "word_matches wc (pre @ w @ post @ rest) = (pre @ w @ post) # word_matches wc rest"
    using p post hd by (intro word_matches_decomp) simp_all
  with t show ?thesis by simp
qed

lemma chain_word_matches: "chain wc ts \<Longrightarrow> word_matches wc (concat ts) = ts"
proof (induction wc ts rule: chain.induct)
  case (1 wc)
  show ?case by (simp add: word_matches_Nil)
next
  case (2 wc t)
  then show ?case by (simp add: word_matches_tok)
next
  case (3 wc t t' ts)
  then have "is_tok wc t'" by (cases ts) simp_all
  then have "t' \<noteq> []" by (rule is_tok_ne)
  then have "hd (concat (t' # ts)) = hd t'" by simp
  with 3 have "word_matches wc (t @ concat (t' # ts)) = t # word_matches wc (concat (t' # ts))"
    by (intro word_matches_step) simp_all
  with 3 show ?case by simp
qed

lemma chain_tl: "chain wc (t # ts) \<Longrightarrow> chain wc ts"
  by (cases ts) simp_all

lemma chain_drop: "chain wc ts \<Longrightarrow> chain wc (drop n ts)"
proof (induction n arbitrary: ts)
  case 0
  then show ?case by simp
next
  case (Suc n)
  show ?case
  proof (cases ts)
    case Nil
    then show ?thesis by simp
  next
    case (Cons t ts')
    with Suc.prems have "chain wc ts'" by (simp add: chain_tl)
    then have "chain wc (drop n ts')" by (rule Suc.IH)
    with Cons show ?thesis by simp
  qed
qed

lemma chain_take: "chain wc ts \<Longrightarrow> chain wc (take n ts)"
proof (induction wc ts arbitrary: n rule: chain.induct)
  case (1 wc)
  show ?case by simp
next
  case (2 wc t)
  then show ?case by (cases n) simp_all
next
  case (3 wc t t' ts)
  show ?case
  proof (cases n)
    case 0
    then show ?thesis by simp
  next
    case n: (Suc m)
    show ?thesis
    proof (cases m)
      case 0
      with n "3.prems" show ?thesis by simp
    next
      case (Suc k)
      from "3.prems" have "chain wc (t' # ts)" by simp
      then have "chain wc (take m (t' # ts))" by (rule "3.IH")
      with "3.prems" n Suc show ?thesis by simp
    qed
  qed
qed

lemma takeWhile_hd_ne: "xs \<noteq> [] \<Longrightarrow> P (hd xs) \<Longrightarrow> takeWhile P xs \<noteq> []"
  by (cases xs) auto

lemma hd_takeWhile: "xs \<noteq> [] \<Longrightarrow> P (hd xs) \<Longrightarrow> hd (takeWhile P xs) = hd xs"
  by (cases xs) auto

lemma word_matches_hd:
  assumes m: "word_matches wc s = t' # ts'" and s: "s \<noteq> []" "wc (hd s)"
  shows "wc (hd t')"
proof -
  let ?N = "\<lambda>c. \<not> wc c"
  from s have tn: "takeWhile ?N s = []" and dn: "dropWhile ?N s = s"
    by (cases s; simp)+
  from s have wn: "takeWhile wc s \<noteq> []" by (rule takeWhile_hd_ne)
  have "word_matches wc s =
      (let pre = takeWhile ?N s; r1 = dropWhile ?N s; w = takeWhile wc r1;
           r2 = dropWhile wc r1; post = takeWhile ?N r2; r3 = dropWhile ?N r2
       in if w = [] then [] else (pre @ w @ post) # word_matches wc r3)"
    by (rule word_matches.simps)
  then have "t' = takeWhile wc s @ takeWhile ?N (dropWhile wc s)"
    unfolding Let_def tn dn using wn m by simp
  then have "hd t' = hd (takeWhile wc s)" using wn by simp
  also have "\<dots> = hd s" using s by (rule hd_takeWhile)
  finally show ?thesis using s by simp
qed

lemma chain_of_word_matches: "chain wc (word_matches wc s)"
proof (induction wc s rule: word_matches.induct)
  case (1 wc s)
  let ?N = "\<lambda>c. \<not> wc c"
  define pre where "pre = takeWhile ?N s"
  define r1 where "r1 = dropWhile ?N s"
  define w where "w = takeWhile wc r1"
  define r2 where "r2 = dropWhile wc r1"
  define post where "post = takeWhile ?N r2"
  define r3 where "r3 = dropWhile ?N r2"
  have eq: "word_matches wc s = (if w = [] then [] else (pre @ w @ post) # word_matches wc r3)"
    unfolding pre_def r1_def w_def r2_def post_def r3_def
    by (subst word_matches.simps) (simp add: Let_def)
  show ?case
  proof (cases "w = []")
    case True
    with eq show ?thesis by simp
  next
    case False
    have IH: "chain wc (word_matches wc r3)"
      using "1.IH" [OF pre_def r1_def w_def r2_def post_def r3_def False] .
    have lp: "list_all ?N pre"
      unfolding pre_def list_all_iff by (auto dest: set_takeWhileD)
    have lw: "list_all wc w"
      unfolding w_def list_all_iff by (auto dest: set_takeWhileD)
    have lpo: "list_all ?N post"
      unfolding post_def list_all_iff by (auto dest: set_takeWhileD)
    have tok: "is_tok wc (pre @ w @ post)"
      unfolding is_tok_def using lp lw lpo False by blast
    show ?thesis
    proof (cases "word_matches wc r3")
      case Nil
      with eq False tok show ?thesis by simp
    next
      case (Cons t' ts')
      have r3: "r3 \<noteq> []"
      proof
        assume "r3 = []"
        with Cons show False by (simp add: word_matches_Nil)
      qed
      then have "dropWhile ?N r2 \<noteq> []" unfolding r3_def .
      then have "\<not> ?N (hd (dropWhile ?N r2))" by (rule hd_dropWhile)
      then have "wc (hd r3)" unfolding r3_def by blast
      then have hd: "wc (hd t')" by (rule word_matches_hd [OF Cons r3])
      have r2: "r2 \<noteq> []"
      proof
        assume "r2 = []"
        then have "r3 = []" by (simp add: r3_def)
        with r3 show False by simp
      qed
      then have "dropWhile wc r1 \<noteq> []" unfolding r2_def .
      then have "\<not> wc (hd (dropWhile wc r1))" by (rule hd_dropWhile)
      then have "\<not> wc (hd r2)" unfolding r2_def .
      with r2 have pn: "post \<noteq> []"
        unfolding post_def by (rule takeWhile_hd_ne)
      then have "last post \<in> set post" by simp
      with lpo have "\<not> wc (last post)" by (simp add: list_all_iff)
      with pn have "\<not> wc (last (pre @ w @ post))" by simp
      with eq False tok hd IH Cons show ?thesis by simp
    qed
  qed
qed

lemma cut_loop_eq:
  "0 \<le> shift \<Longrightarrow> 0 \<le> k \<Longrightarrow>
   cut_loop i shift k ms seg =
     seg @ concat (take (nat (shift + k) - max i (nat shift)) (drop (nat shift - i) ms))"
proof (induction ms arbitrary: i seg)
  case Nil
  show ?case by simp
next
  case (Cons m ms)
  show ?case
  proof (cases "int i < shift")
    case True
    then have d: "nat shift - i = Suc (nat shift - Suc i)" and mx: "max i (nat shift) = nat shift"
      "max (Suc i) (nat shift) = nat shift"
      by linarith+
    have "cut_loop i shift k (m # ms) seg = cut_loop (Suc i) shift k ms seg"
      using True by simp
    also have "\<dots> = seg @ concat (take (nat (shift + k) - max (Suc i) (nat shift))
        (drop (nat shift - Suc i) ms))"
      using Cons.prems by (rule Cons.IH)
    finally show ?thesis by (simp add: d mx)
  next
    case False
    then have d: "nat shift - i = 0" "nat shift - Suc i = 0" and mx: "max i (nat shift) = i"
      "max (Suc i) (nat shift) = Suc i"
      by linarith+
    show ?thesis
    proof (cases "int i \<ge> k + shift")
      case True
      then have "nat (shift + k) - i = 0" by linarith
      with True False show ?thesis by (simp add: d mx)
    next
      case nb: False
      then have s: "nat (shift + k) - i = Suc (nat (shift + k) - Suc i)" by linarith
      have "cut_loop i shift k (m # ms) seg = cut_loop (Suc i) shift k ms (seg @ m)"
        using False nb by simp
      also have "\<dots> = (seg @ m) @ concat (take (nat (shift + k) - max (Suc i) (nat shift))
          (drop (nat shift - Suc i) ms))"
        using Cons.prems by (rule Cons.IH)
      finally show ?thesis by (simp add: d mx s)
    qed
  qed
qed

lemma cut_segment_eq:
  assumes "0 \<le> shift" "0 \<le> k"
  shows "cut_segment wc s shift k = concat (take (nat k) (drop (nat shift) (word_matches wc s)))"
proof -
  have "nat (shift + k) - max 0 (nat shift) = nat k" using assms by linarith
  then show ?thesis
    unfolding cut_segment_def using cut_loop_eq [OF assms, of 0 "word_matches wc s" "[]"]
    by simp
qed

text \<open>
  C5. For non-negative \<open>shift\<close> and \<open>k\<close> with \<open>shift + k \<le> count_words(text)\<close>, the segment
  \<open>cut_segment(text, shift, k)\<close> has exactly \<open>k\<close> words under \<open>count_words\<close>.
\<close>

theorem count_words_cut_segment:
  assumes "0 \<le> shift" "0 \<le> k" "shift + k \<le> int (count_words wc s)"
  shows "int (count_words wc (cut_segment wc s shift k)) = k"
proof -
  let ?ms = "word_matches wc s"
  let ?sub = "take (nat k) (drop (nat shift) ?ms)"
  have "chain wc ?ms" by (rule chain_of_word_matches)
  then have "chain wc (drop (nat shift) ?ms)" by (rule chain_drop)
  then have "chain wc ?sub" by (rule chain_take)
  then have "word_matches wc (concat ?sub) = ?sub" by (rule chain_word_matches)
  then have "count_words wc (cut_segment wc s shift k) = length ?sub"
    by (simp add: count_words_def cut_segment_eq [OF assms(1,2)])
  also have "\<dots> = nat k"
    using assms by (simp add: count_words_def)
  finally show ?thesis using assms(2) by simp
qed

theorem count_words_cut_segment_witness:
  "(0::int) \<le> 1 \<and> (0::int) \<le> 2 \<and>
   1 + 2 \<le> int (count_words (\<lambda>c. c \<in> set ''abc'') '', ab, c (- b.'') \<and>
   cut_segment (\<lambda>c. c \<in> set ''abc'') '', ab, c (- b.'' 1 2 = ''c (- b.'' \<and>
   int (count_words (\<lambda>c. c \<in> set ''abc'') (cut_segment (\<lambda>c. c \<in> set ''abc'') '', ab, c (- b.'' 1 2)) = 2"
proof -
  have h: "1 + 2 \<le> int (count_words (\<lambda>c. c \<in> set ''abc'') '', ab, c (- b.'')"
    by code_simp
  have c: "cut_segment (\<lambda>c. c \<in> set ''abc'') '', ab, c (- b.'' 1 2 = ''c (- b.''"
    by code_simp
  from count_words_cut_segment [OF _ _ h] h c show ?thesis by simp
qed

section \<open>Properties of the UN and Tatoeba extractors\<close>

lemma length_py_split: "sep \<noteq> [] \<Longrightarrow> length (py_split sep s) = count_sub sep s + 1"
proof (induction sep s rule: py_split.induct)
  case (1 sep s)
  show ?case
  proof (cases "find_sub sep s")
    case None
    then show ?thesis
      by (subst py_split.simps, subst count_sub.simps) simp
  next
    case (Some i)
    with 1 have "length (py_split sep (drop (i + length sep) s)) =
        count_sub sep (drop (i + length sep) s) + 1"
      by simp
    with Some "1.prems" show ?thesis
      by (subst py_split.simps, subst count_sub.simps) simp
  qed
qed

lemma count_sub_0: "sep \<noteq> [] \<Longrightarrow> count_sub sep s = 0 \<longleftrightarrow> find_sub sep s = None"
  by (subst count_sub.simps) (simp split: option.splits)

lemma py_split_None: "find_sub sep s = None \<Longrightarrow> py_split sep s = [s]"
  by (subst py_split.simps) simp

lemma py_split_one:
  assumes "sep \<noteq> []" "count_sub sep s = 1"
  shows "py_split sep s = [before_first sep s, after_first sep s]"
proof -
  from assms obtain i where i: "find_sub sep s = Some i"
    by (cases "find_sub sep s") (simp_all add: count_sub_0 [symmetric])
  with assms have "count_sub sep (drop (i + length sep) s) = 0"
    by (subst (asm) count_sub.simps) simp
  with assms(1) have "find_sub sep (drop (i + length sep) s) = None"
    by (simp add: count_sub_0)
  then have "py_split sep (drop (i + length sep) s) = [drop (i + length sep) s]"
    by (rule py_split_None)
  with i assms(1) show ?thesis
    by (subst py_split.simps) (simp add: before_first_def after_first_def)
qed

text \<open>
  C8, as amended: for a non-empty file, extraction fails with a \<open>ValueError\<close> naming the file
  if the number of \<open><body>\<close> tags is not exactly one, or if it is one and the number of
  \<open></body>\<close> tags after the \<open><body>\<close> tag is not exactly one; otherwise the body is the
  text between the two tags and no error is raised for that reason.
\<close>

theorem un_worker_body_tags:
  assumes "txt \<noteq> []"
  shows "un_worker_body file txt =
     (if count_sub ''<body>'' txt \<noteq> 1
      then Inl (ValueError_body_tags (int (count_sub ''<body>'' txt)) file)
      else if count_sub ''</body>'' (after_first ''<body>'' txt) \<noteq> 1
      then Inl (ValueError_body_close_tags
             (int (count_sub ''</body>'' (after_first ''<body>'' txt))) file)
      else Inr (before_first ''</body>'' (after_first ''<body>'' txt)))"
proof (cases "count_sub ''<body>'' txt = 1")
  case False
  with assms show ?thesis
    by (simp add: un_worker_body_def Let_def length_py_split)
next
  case True
  then have s1: "py_split ''<body>'' txt = [before_first ''<body>'' txt, after_first ''<body>'' txt]"
    by (intro py_split_one) simp_all
  show ?thesis
  proof (cases "count_sub ''</body>'' (after_first ''<body>'' txt) = 1")
    case c: False
    with assms True show ?thesis
      by (simp add: un_worker_body_def Let_def s1 length_py_split)
  next
    case c: True
    then have "py_split ''</body>'' (after_first ''<body>'' txt) =
        [before_first ''</body>'' (after_first ''<body>'' txt),
         after_first ''</body>'' (after_first ''<body>'' txt)]"
      by (intro py_split_one) simp_all
    with assms True c show ?thesis
      by (simp add: un_worker_body_def Let_def s1)
  qed
qed

theorem un_worker_body_tags_witness:
  "''<p>a</p><body>x</body>'' \<noteq> [] \<and>
   un_worker_body ''f.xml'' ''<p>a</p><body>x</body>'' = Inr ''x''"
proof -
  have a: "count_sub ''<body>'' ''<p>a</p><body>x</body>'' = 1" by code_simp
  have b: "after_first ''<body>'' ''<p>a</p><body>x</body>'' = ''x</body>''" by code_simp
  have c: "count_sub ''</body>'' ''x</body>'' = 1" by code_simp
  have d: "before_first ''</body>'' ''x</body>'' = ''x''" by code_simp
  from un_worker_body_tags [of "''<p>a</p><body>x</body>''" "''f.xml''"] a b c d
  show ?thesis by simp
qed

text \<open>
  C8. The claim counts the \<open></body>\<close> tags of the whole file. The code splits only the text
  after \<open><body>\<close>: a file with one \<open><body>\<close> tag and two \<open></body>\<close> tags, one of them
  before \<open><body>\<close>, is accepted.
\<close>

theorem un_close_tag_before_body:
  "count_sub ''<body>'' ''</body><body>x</body>'' = 1 \<and>
   count_sub ''</body>'' ''</body><body>x</body>'' = 2 \<and>
   un_worker_body ''f.xml'' ''</body><body>x</body>'' = Inr ''x''"
  by code_simp


text \<open>
  C4. The claim: no extractor passes a document with empty text to the shard writer.
  \<open>preprocess_tatoeba\<close> writes its single document without looking at the text: for a file
  whose only line has two fields, the document text is the empty string.
\<close>

theorem tatoeba_writes_empty_document:
  "preprocess_tatoeba [''1276 eng''] ''sentences.csv'' 7 3 =
     ((3, [(7, \<lparr>doc_text = [], start_line = 0, end_line = 1, source = ''sentences.csv'',
                title = ''tatoeba''\<rparr>)]), [(7, 3)])"
  by code_simp

lemma tatoeba_empty_file:
  "preprocess_tatoeba [] ''sentences.csv'' 7 3 =
     ((3, [(7, \<lparr>doc_text = [], start_line = 0, end_line = 0, source = ''sentences.csv'',
                title = ''tatoeba''\<rparr>)]), [(7, 3)])"
  by code_simp

lemma tatoeba_example:
  "fst (preprocess_tatoeba [''1 eng Hello there.'', ''2 eng Bye.''] ''s.csv'' 7 3) =
     (3, [(7, \<lparr>doc_text = ''Hello there.\<newline>Bye.'', start_line = 0, end_line = 2, source = ''s.csv'',
                title = ''tatoeba''\<rparr>)])"
  by code_simp

section \<open>Properties of the segment budget\<close>

lemma within_update:
  "within maxs sizes \<Longrightarrow> p < length sizes \<Longrightarrow> v \<le> maxs ! p \<Longrightarrow> within maxs (sizes[p := v])"
  by (auto simp: within_def nth_list_update)

lemma decrease_loop_within:
  "decrease_loop sz ps sizes s = Inr (sizes', s') \<Longrightarrow> within maxs sizes \<Longrightarrow> within maxs sizes'"
proof (induction ps arbitrary: sizes s)
  case Nil
  then show ?case by simp
next
  case (Cons p ps)
  show ?case
  proof (cases "s > sz")
    case False
    with Cons.prems show ?thesis by simp
  next
    case True
    with Cons.prems have p: "p < length sizes" by (simp split: if_splits)
    show ?thesis
    proof (cases "sizes ! p > 0")
      case pos: True
      from Cons.prems(2) p have "sizes ! p - 1 \<le> maxs ! p"
        by (simp add: within_def order.trans [of "sizes ! p - 1" "sizes ! p"])
      with Cons.prems(2) p have "within maxs (sizes[p := sizes ! p - 1])"
        by (rule within_update)
      moreover from Cons.prems(1) True p pos have
        "decrease_loop sz ps (sizes[p := sizes ! p - 1]) (s - 1) = Inr (sizes', s')"
        by simp
      ultimately show ?thesis by (rule Cons.IH [rotated])
    next
      case False
      with Cons.prems(1) True p have "decrease_loop sz ps sizes s = Inr (sizes', s')"
        by simp
      then show ?thesis using Cons.prems(2) by (rule Cons.IH)
    qed
  qed
qed

lemma increase_pass_within:
  "increase_pass sz maxs js sizes s was = Inr (sizes', s', was') \<Longrightarrow> within maxs sizes \<Longrightarrow>
   within maxs sizes'"
proof (induction js arbitrary: sizes s was)
  case Nil
  then show ?case by simp
next
  case (Cons j js)
  from Cons.prems(1) have j: "j < length sizes" by (simp split: if_splits)
  show ?case
  proof (cases "sizes ! j < maxs ! j")
    case lt: True
    then have "sizes ! j + 1 \<le> maxs ! j" by simp
    with Cons.prems(2) j have w: "within maxs (sizes[j := sizes ! j + 1])"
      by (rule within_update)
    show ?thesis
    proof (cases "s + 1 \<ge> sz")
      case True
      with Cons.prems(1) j lt have "sizes' = sizes[j := sizes ! j + 1]"
        by (simp split: if_splits)
      with w show ?thesis by simp
    next
      case False
      with Cons.prems(1) j lt have
        "increase_pass sz maxs js (sizes[j := sizes ! j + 1]) (s + 1) True = Inr (sizes', s', was')"
        by (simp split: if_splits)
      then show ?thesis using w by (rule Cons.IH)
    qed
  next
    case False
    with Cons.prems(1) j have "increase_pass sz maxs js sizes s was = Inr (sizes', s', was')"
      by (simp split: if_splits)
    then show ?thesis using Cons.prems(2) by (rule Cons.IH)
  qed
qed

lemma increase_loop_within:
  "increase_loop sz maxs perm sizes s was = Inr (sizes', s') \<Longrightarrow> within maxs sizes \<Longrightarrow>
   within maxs sizes'"
proof (induction sz maxs perm sizes s was rule: increase_loop.induct)
  case (1 sz maxs perm sizes s was)
  show ?case
  proof (cases "s < sz \<and> was")
    case False
    with "1.prems" show ?thesis by (subst (asm) increase_loop.simps) simp
  next
    case True
    show ?thesis
    proof (cases "increase_pass sz maxs perm sizes s False")
      case (Inl e)
      with "1.prems"(1) True show ?thesis by (subst (asm) increase_loop.simps) simp
    next
      case (Inr r)
      obtain sizes1 s1 was1 where r: "r = (sizes1, s1, was1)" by (cases r)
      with Inr have p: "increase_pass sz maxs perm sizes s False = Inr (sizes1, s1, was1)" by simp
      then have w: "within maxs sizes1" using "1.prems"(2) by (rule increase_pass_within)
      from "1.prems"(1) True p have "increase_loop sz maxs perm sizes1 s1 was1 = Inr (sizes', s')"
        by (subst (asm) increase_loop.simps) simp
      with w show ?thesis using "1.IH" [OF True p refl refl] by simp
    qed
  qed
qed

lemma within_cap:
  "length sizes0 = length maxs \<Longrightarrow>
   within maxs (map (\<lambda>(s, m). if s > m then m else s) (zip sizes0 maxs))"
  by (auto simp: within_def)

lemma within_sum: "within maxs sizes \<Longrightarrow> sum_list sizes \<le> sum_list maxs"
  unfolding within_def by (intro sum_list_mono2) auto

lemma get_how_many_result:
  assumes "get_how_many_segments_to_cut_by_files wc round_frac permutation files sz L = Inr sizes"
  shows "length sizes = length files \<and> list_all (\<lambda>s. s \<ge> 0) sizes \<and> sum_list sizes = sz \<and>
     within (max_possible_segments_per_file wc files L) sizes"
proof -
  let ?stats = "map (\<lambda>f. int (st_size f)) files"
  let ?maxs = "max_possible_segments_per_file wc files L"
  let ?sizes1 = "map (\<lambda>(s, m). if s > m then m else s)
     (zip (map (\<lambda>s. round_frac s (sum_list ?stats) sz) ?stats) ?maxs)"
  let ?sum = "sum_list ?sizes1"
  let ?r = "if ?sum > sz then decrease_loop sz permutation ?sizes1 ?sum
            else if ?sum < sz then
              (case increase_loop sz ?maxs permutation ?sizes1 ?sum True of
                 Inl e \<Rightarrow> Inl e
               | Inr (sizes2, sum2) \<Rightarrow>
                   if sum2 < sz then Inl (ValueError_not_enough_files sz sum2)
                   else Inr (sizes2, sum2))
            else Inr (?sizes1, ?sum)"
  have w1: "within ?maxs ?sizes1"
    by (rule within_cap) (simp add: max_possible_segments_per_file_def)
  define r where "r = ?r"
  have eq: "get_how_many_segments_to_cut_by_files wc round_frac permutation files sz L =
      (if files \<noteq> [] \<and> sum_list ?stats = 0 then Inl ZeroDivisionError
       else case r of
              Inl e \<Rightarrow> Inl e
            | Inr (sizes, s) \<Rightarrow>
                if length sizes \<noteq> length files then Inl AssertionError
                else if \<not> list_all (\<lambda>s. s \<ge> 0) sizes then Inl AssertionError
                else if sum_list sizes \<noteq> sz then Inl AssertionError
                else Inr sizes)"
    unfolding get_how_many_segments_to_cut_by_files_def r_def Let_def ..
  obtain s where rr: "r = Inr (sizes, s)"
    and a: "length sizes = length files" "list_all (\<lambda>s. s \<ge> 0) sizes" "sum_list sizes = sz"
  proof (cases r)
    case (Inl e)
    with assms eq show ?thesis by (simp split: if_splits)
  next
    case (Inr p)
    obtain sizes' s where p: "p = (sizes', s)" by (cases p)
    with Inr assms eq have "sizes' = sizes \<and> length sizes = length files \<and>
        list_all (\<lambda>s. s \<ge> 0) sizes \<and> sum_list sizes = sz"
      by (simp split: if_splits)
    with Inr p that show ?thesis by simp
  qed
  from rr have r: "?r = Inr (sizes, s)" by (simp add: r_def)
  have "within ?maxs sizes"
  proof (cases "?sum > sz")
    case True
    with r have "decrease_loop sz permutation ?sizes1 ?sum = Inr (sizes, s)" by simp
    then show ?thesis using w1 by (rule decrease_loop_within)
  next
    case False
    show ?thesis
    proof (cases "?sum < sz")
      case lt: True
      with r False obtain s2 where
        "increase_loop sz ?maxs permutation ?sizes1 ?sum True = Inr (sizes, s2)"
        by (auto split: sum.splits prod.splits if_splits)
      then show ?thesis using w1 by (rule increase_loop_within)
    next
      case False
      with \<open>\<not> ?sum > sz\<close> have "?r = Inr (?sizes1, ?sum)" by (simp only: if_False)
      with r have "(Inr (sizes, s) :: error + int list \<times> int) = Inr (?sizes1, ?sum)"
        by (rule trans [OF sym])
      then have "sizes = ?sizes1" by (simp only: sum.inject prod.inject)
      with w1 show ?thesis by (simp only:)
    qed
  qed
  with a show ?thesis by simp
qed

text \<open>A result has the right length, elements within the limits and the requested sum;
  a request above the sum of the limits raises.\<close>

lemma get_how_many_sizes_or_raises:
  "(case get_how_many_segments_to_cut_by_files wc round_frac permutation files sz L of
      Inl e \<Rightarrow> True
    | Inr sizes \<Rightarrow>
        length sizes = length files \<and>
        (\<forall>i<length files. 0 \<le> sizes ! i \<and>
           sizes ! i \<le> max_possible_segments_per_file wc files L ! i) \<and>
        sum_list sizes = sz) \<and>
   (sum_list (max_possible_segments_per_file wc files L) < sz \<longrightarrow>
      isl (get_how_many_segments_to_cut_by_files wc round_frac permutation files sz L))"
proof (cases "get_how_many_segments_to_cut_by_files wc round_frac permutation files sz L")
  case (Inl e)
  then show ?thesis by simp
next
  case (Inr sizes)
  note r = get_how_many_result [OF Inr]
  from r have w: "within (max_possible_segments_per_file wc files L) sizes" by simp
  then have "sz \<le> sum_list (max_possible_segments_per_file wc files L)"
    using r within_sum by fastforce
  moreover from r w have "\<forall>i<length files. 0 \<le> sizes ! i \<and>
      sizes ! i \<le> max_possible_segments_per_file wc files L ! i"
    by (simp add: within_def list_all_length)
  ultimately show ?thesis using Inr r by simp
qed

text \<open>The loop that lowers the sizes reaches \<open>size\<close> when the excess is at most the number
  of positive sizes.\<close>

lemma sum_list_update_int:
  "k < length xs \<Longrightarrow> sum_list (xs[k := x]) = sum_list xs + x - (xs ! k :: int)"
proof (induction xs arbitrary: k)
  case Nil
  then show ?case by simp
next
  case (Cons a xs)
  then show ?case by (cases k) simp_all
qed

lemma list_all_update:
  "list_all P xs \<Longrightarrow> P x \<Longrightarrow> list_all P (xs[k := x])"
  unfolding list_all_iff using set_update_subset_insert [of xs k x] by blast

lemma filter_nth_update_notin:
  assumes "p \<notin> set ps"
  shows "filter (\<lambda>q. Q (xs[p := v] ! q)) ps = filter (\<lambda>q. Q (xs ! q)) ps"
proof (rule filter_cong [OF refl])
  fix q assume "q \<in> set ps"
  with assms have "p \<noteq> q" by blast
  then show "Q (xs[p := v] ! q) = Q (xs ! q)" by simp
qed

lemma decrease_loop_reaches:
  assumes "distinct ps" and "\<forall>p\<in>set ps. p < length sizes"
    and "list_all (\<lambda>s. 0 \<le> s) sizes" and "s = sum_list sizes" and "sz \<le> s"
    and "s - sz \<le> int (length (filter (\<lambda>p. sizes ! p > 0) ps))"
  shows "\<exists>sizes'. decrease_loop sz ps sizes s = Inr (sizes', sz) \<and>
     length sizes' = length sizes \<and> list_all (\<lambda>s. 0 \<le> s) sizes' \<and> sum_list sizes' = sz"
  using assms
proof (induction ps arbitrary: sizes s)
  case Nil
  then have "s = sz" by simp
  with Nil show ?case by simp
next
  case (Cons p ps)
  from Cons.prems(1) have pn: "p \<notin> set ps" and d: "distinct ps" by simp_all
  from Cons.prems(2) have p: "p < length sizes" and ps: "\<forall>p\<in>set ps. p < length sizes"
    by simp_all
  show ?case
  proof (cases "s > sz")
    case False
    with Cons.prems(5) have "s = sz" by simp
    with Cons.prems show ?thesis by simp
  next
    case True
    show ?thesis
    proof (cases "sizes ! p > 0")
      case pos: True
      let ?sizes = "sizes[p := sizes ! p - 1]"
      have 2: "\<forall>q\<in>set ps. q < length ?sizes" using ps by simp
      have 3: "list_all (\<lambda>s. 0 \<le> s) ?sizes"
        using Cons.prems(3) pos by (intro list_all_update) simp_all
      have 4: "s - 1 = sum_list ?sizes"
        using Cons.prems(4) p by (simp add: sum_list_update_int)
      have 5: "sz \<le> s - 1" using True by simp
      have "filter (\<lambda>q. ?sizes ! q > 0) ps = filter (\<lambda>q. sizes ! q > 0) ps"
        using pn by (rule filter_nth_update_notin)
      moreover have "length (filter (\<lambda>q. sizes ! q > 0) (p # ps)) =
          Suc (length (filter (\<lambda>q. sizes ! q > 0) ps))"
        using pos by simp
      ultimately have 6: "s - 1 - sz \<le> int (length (filter (\<lambda>q. ?sizes ! q > 0) ps))"
        using Cons.prems(6) by simp
      from Cons.IH [OF d 2 3 4 5 6] obtain sizes' where
        "decrease_loop sz ps ?sizes (s - 1) = Inr (sizes', sz)"
        "length sizes' = length ?sizes" "list_all (\<lambda>s. 0 \<le> s) sizes'" "sum_list sizes' = sz"
        by blast
      moreover have "decrease_loop sz (p # ps) sizes s = decrease_loop sz ps ?sizes (s - 1)"
        using True p pos by simp
      ultimately show ?thesis by simp
    next
      case False
      then have "length (filter (\<lambda>q. sizes ! q > 0) (p # ps)) =
          length (filter (\<lambda>q. sizes ! q > 0) ps)"
        by simp
      with Cons.prems(6) have 6: "s - sz \<le> int (length (filter (\<lambda>q. sizes ! q > 0) ps))"
        by simp
      from Cons.IH [OF d ps Cons.prems(3,4,5) 6] obtain sizes' where
        "decrease_loop sz ps sizes s = Inr (sizes', sz)"
        "length sizes' = length sizes" "list_all (\<lambda>s. 0 \<le> s) sizes'" "sum_list sizes' = sz"
        by blast
      moreover have "decrease_loop sz (p # ps) sizes s = decrease_loop sz ps sizes s"
        using True p False by simp
      ultimately show ?thesis by simp
    qed
  qed
qed

text \<open>A run of \<open>for j in permutation\<close> either reaches \<open>size\<close>, or raises every size
  below its limit; a run without increase leaves every size at its limit.\<close>

lemma increase_pass_was:
  "increase_pass sz maxs js sizes s True = Inr (sizes', s', was') \<Longrightarrow> was'"
proof (induction js arbitrary: sizes s)
  case Nil
  then show ?case by simp
next
  case (Cons j js)
  from Cons.prems have j: "\<not> (j \<ge> length sizes \<or> j \<ge> length maxs)" by (auto split: if_splits)
  show ?case
  proof (cases "sizes ! j < maxs ! j")
    case True
    show ?thesis
    proof (cases "s + 1 \<ge> sz")
      case b: True
      with Cons.prems j True show ?thesis by (simp split: if_splits)
    next
      case False
      with Cons.prems j True have
        "increase_pass sz maxs js (sizes[j := sizes ! j + 1]) (s + 1) True = Inr (sizes', s', was')"
        by simp
      then show ?thesis by (rule Cons.IH)
    qed
  next
    case False
    with Cons.prems j have "increase_pass sz maxs js sizes s True = Inr (sizes', s', was')"
      by simp
    then show ?thesis by (rule Cons.IH)
  qed
qed

lemma increase_pass_stuck:
  "increase_pass sz maxs js sizes s False = Inr (sizes', s', False) \<Longrightarrow>
   \<forall>j\<in>set js. \<not> sizes ! j < maxs ! j"
proof (induction js)
  case Nil
  then show ?case by simp
next
  case (Cons j js)
  from Cons.prems have j: "\<not> (j \<ge> length sizes \<or> j \<ge> length maxs)" by (auto split: if_splits)
  have nlt: "\<not> sizes ! j < maxs ! j"
  proof
    assume lt: "sizes ! j < maxs ! j"
    show False
    proof (cases "s + 1 \<ge> sz")
      case True
      with Cons.prems j lt show False by (simp split: if_splits)
    next
      case False
      with Cons.prems j lt have
        "increase_pass sz maxs js (sizes[j := sizes ! j + 1]) (s + 1) True = Inr (sizes', s', False)"
        by simp
      then have False by (rule increase_pass_was)
      then show False .
    qed
  qed
  with Cons.prems j have "increase_pass sz maxs js sizes s False = Inr (sizes', s', False)"
    by simp
  then have "\<forall>j\<in>set js. \<not> sizes ! j < maxs ! j" by (rule Cons.IH)
  with nlt show ?case by simp
qed

lemma increase_pass_total:
  assumes "\<forall>j\<in>set js. j < length sizes" and "length maxs = length sizes"
    and "s = sum_list sizes" and "s < sz" and "list_all (\<lambda>s. 0 \<le> s) sizes"
  shows "\<exists>sizes' s' was'. increase_pass sz maxs js sizes s was = Inr (sizes', s', was') \<and>
     s' = sum_list sizes' \<and> s' \<le> sz \<and> length sizes' = length sizes \<and>
     list_all (\<lambda>s. 0 \<le> s) sizes'"
  using assms
proof (induction js arbitrary: sizes s was)
  case Nil
  then show ?case by simp
next
  case (Cons j js)
  from Cons.prems(1,2) have j: "j < length sizes" "j < length maxs"
    and js: "\<forall>j\<in>set js. j < length sizes"
    by simp_all
  show ?case
  proof (cases "sizes ! j < maxs ! j")
    case False
    from Cons.IH [OF js Cons.prems(2,3,4,5), of was] obtain sizes' s' was' where
      "increase_pass sz maxs js sizes s was = Inr (sizes', s', was')"
      "s' = sum_list sizes'" "s' \<le> sz" "length sizes' = length sizes"
      "list_all (\<lambda>s. 0 \<le> s) sizes'"
      by blast
    moreover have "increase_pass sz maxs (j # js) sizes s was = increase_pass sz maxs js sizes s was"
      using j False by simp
    ultimately show ?thesis by simp
  next
    case True
    let ?sizes = "sizes[j := sizes ! j + 1]"
    have sum: "s + 1 = sum_list ?sizes"
      using Cons.prems(3) j(1) by (simp add: sum_list_update_int)
    from Cons.prems(5) j(1) have "0 \<le> sizes ! j" by (simp add: list_all_length)
    then have nn: "list_all (\<lambda>s. 0 \<le> s) ?sizes"
      using Cons.prems(5) by (intro list_all_update) simp_all
    show ?thesis
    proof (cases "s + 1 \<ge> sz")
      case b: True
      with Cons.prems(4) have e: "s + 1 = sz" by simp
      then have eq: "increase_pass sz maxs (j # js) sizes s was = Inr (?sizes, s + 1, True)"
        using j True by simp
      have "s + 1 \<le> sz" using e by simp
      moreover have "length ?sizes = length sizes" by simp
      ultimately show ?thesis using eq sum nn by blast
    next
      case False
      then have lt: "s + 1 < sz" by simp
      have 1: "\<forall>j\<in>set js. j < length ?sizes" using js by simp
      have 2: "length maxs = length ?sizes" using Cons.prems(2) by simp
      from Cons.IH [OF 1 2 sum lt nn, of True] obtain sizes' s' was' where
        "increase_pass sz maxs js ?sizes (s + 1) True = Inr (sizes', s', was')"
        "s' = sum_list sizes'" "s' \<le> sz" "length sizes' = length ?sizes"
        "list_all (\<lambda>s. 0 \<le> s) sizes'"
        by blast
      moreover have "increase_pass sz maxs (j # js) sizes s was =
          increase_pass sz maxs js ?sizes (s + 1) True"
        using j True False by simp
      ultimately show ?thesis by simp
    qed
  qed
qed

lemma within_all_max:
  assumes w: "within maxs sizes" and stuck: "\<forall>j<length sizes. \<not> sizes ! j < maxs ! j"
  shows "sizes = maxs"
proof (rule nth_equalityI)
  from w show "length sizes = length maxs" by (simp add: within_def)
next
  fix i assume i: "i < length sizes"
  with w have "sizes ! i \<le> maxs ! i" by (simp add: within_def)
  moreover from stuck i have "\<not> sizes ! i < maxs ! i" by simp
  ultimately show "sizes ! i = maxs ! i" by simp
qed

lemma increase_loop_reaches:
  "{..<length sizes} \<subseteq> set perm \<Longrightarrow> \<forall>j\<in>set perm. j < length sizes \<Longrightarrow>
   within maxs sizes \<Longrightarrow> s = sum_list sizes \<Longrightarrow> s \<le> sz \<Longrightarrow> (s < sz \<longrightarrow> was) \<Longrightarrow>
   sz \<le> sum_list maxs \<Longrightarrow> list_all (\<lambda>s. 0 \<le> s) sizes \<Longrightarrow>
   \<exists>sizes'. increase_loop sz maxs perm sizes s was = Inr (sizes', sz) \<and>
     length sizes' = length sizes \<and> list_all (\<lambda>s. 0 \<le> s) sizes' \<and> sum_list sizes' = sz"
proof (induction sz maxs perm sizes s was rule: increase_loop.induct)
  case (1 sz maxs perm sizes s was)
  show ?case
  proof (cases "s < sz")
    case False
    with "1.prems"(5) have e: "s = sz" by simp
    then have "increase_loop sz maxs perm sizes s was = Inr (sizes, sz)"
      by (subst increase_loop.simps) simp
    with "1.prems"(4,8) e show ?thesis by simp
  next
    case True
    with "1.prems"(6) have c: "s < sz \<and> was" by simp
    from "1.prems"(3) have len: "length maxs = length sizes" by (simp add: within_def)
    from increase_pass_total [OF "1.prems"(2) len "1.prems"(4) True "1.prems"(8), of False]
    obtain sizes1 s1 was1 where
      p: "increase_pass sz maxs perm sizes s False = Inr (sizes1, s1, was1)"
      and q: "s1 = sum_list sizes1" "s1 \<le> sz" "length sizes1 = length sizes"
        "list_all (\<lambda>s. 0 \<le> s) sizes1"
      by blast
    from p "1.prems"(3) have w1: "within maxs sizes1" by (rule increase_pass_within)
    have was1: "s1 < sz \<longrightarrow> was1"
    proof
      assume lt: "s1 < sz"
      show was1
      proof (rule ccontr)
        assume "\<not> was1"
        with p have "increase_pass sz maxs perm sizes s False = Inr (sizes1, s1, False)" by simp
        then have "\<forall>j\<in>set perm. \<not> sizes ! j < maxs ! j" by (rule increase_pass_stuck)
        with "1.prems"(1) have "\<forall>j<length sizes. \<not> sizes ! j < maxs ! j" by blast
        with "1.prems"(3) have "sizes = maxs" by (rule within_all_max)
        with "1.prems"(4,7) True show False by simp
      qed
    qed
    have 1: "{..<length sizes1} \<subseteq> set perm" using "1.prems"(1) q(3) by simp
    have 2: "\<forall>j\<in>set perm. j < length sizes1" using "1.prems"(2) q(3) by simp
    from "1.IH" [OF c p refl refl 1 2 w1 q(1,2) was1 "1.prems"(7) q(4)]
    obtain sizes' where r: "increase_loop sz maxs perm sizes1 s1 was1 = Inr (sizes', sz)"
      "length sizes' = length sizes1" "list_all (\<lambda>s. 0 \<le> s) sizes'" "sum_list sizes' = sz"
      by blast
    have "increase_loop sz maxs perm sizes s was = increase_loop sz maxs perm sizes1 s1 was1"
      using c p by (subst increase_loop.simps) simp
    with r q(3) show ?thesis by simp
  qed
qed

text \<open>The arithmetic of the rounding: the sum of the rounded sizes exceeds \<open>size\<close> by at
  most the number of files whose rounded size is positive.\<close>

lemma get_max_allowed_nonneg: "0 \<le> get_max_allowed_segments_for_text wc ss L"
  by (simp add: get_max_allowed_segments_for_text_def split: prod.splits)

lemma weighted_sum_bound:
  fixes g st :: "'b \<Rightarrow> int"
  assumes "0 \<le> T" "0 \<le> sz"
    and "\<forall>f\<in>set fs. 0 \<le> g f \<and> 0 \<le> st f \<and> T * g f \<le> st f * sz + T"
  shows "T * sum_list (map g fs) \<le>
     sz * sum_list (map st fs) + T * int (length (filter (\<lambda>x. 0 < x) (map g fs)))"
  using assms(3)
proof (induction fs)
  case Nil
  show ?case by simp
next
  case (Cons f fs)
  then have IH: "T * sum_list (map g fs) \<le>
      sz * sum_list (map st fs) + T * int (length (filter (\<lambda>x. 0 < x) (map g fs)))"
    by simp
  from Cons.prems have f: "0 \<le> g f" "0 \<le> st f" "T * g f \<le> st f * sz + T" by simp_all
  have step: "T * g f \<le> sz * st f + T * (if 0 < g f then 1 else 0)"
  proof (cases "0 < g f")
    case True
    with f(3) show ?thesis by (simp add: mult.commute)
  next
    case False
    with f(1) have "g f = 0" by simp
    moreover have "0 \<le> sz * st f" using assms(2) f(2) by simp
    ultimately show ?thesis by simp
  qed
  have "T * sum_list (map g (f # fs)) = T * g f + T * sum_list (map g fs)"
    by (simp add: distrib_left)
  also have "\<dots> \<le> (sz * st f + T * (if 0 < g f then 1 else 0)) +
      (sz * sum_list (map st fs) + T * int (length (filter (\<lambda>x. 0 < x) (map g fs))))"
    using step IH by (rule add_mono)
  also have "\<dots> = sz * sum_list (map st (f # fs)) +
      T * int (length (filter (\<lambda>x. 0 < x) (map g (f # fs))))"
    by (simp add: distrib_left)
  finally show ?case .
qed

lemma positive_count_perm:
  assumes "distinct perm" "set perm = {..<length xs}"
  shows "length (filter (\<lambda>p. xs ! p > (0::int)) perm) = length (filter (\<lambda>x. 0 < x) xs)"
proof -
  have "length (filter (\<lambda>p. xs ! p > 0) perm) = card ({p. xs ! p > 0} \<inter> set perm)"
    using assms(1) by (rule distinct_length_filter)
  also have "{p. xs ! p > 0} \<inter> set perm = {i. i < length xs \<and> 0 < xs ! i}"
    using assms(2) by auto
  also have "card \<dots> = length (filter (\<lambda>x. 0 < x) xs)"
    by (rule length_filter_conv_card [symmetric])
  finally show ?thesis .
qed

text \<open>The call returns a list when the files can supply \<open>size\<close> segments.\<close>

lemma capped_sizes_map:
  "map (\<lambda>(s, m). if s > m then m else s) (zip (map r (map st fs)) (map mx fs)) =
   map (\<lambda>f. if r (st f) > mx f then mx f else r (st f)) fs"
  by (induction fs) simp_all

lemma get_how_many_returns:
  fixes files :: "'a shard list"
  assumes perm: "distinct permutation" "set permutation = {..<length files}"
    and rc: "round_close round_frac files sz"
    and sz: "0 \<le> sz"
    and tot: "0 < sum_list (map st_size files)"
    and feas: "sz \<le> sum_list (max_possible_segments_per_file wc files L)"
  shows "\<exists>sizes. get_how_many_segments_to_cut_by_files wc round_frac permutation files sz L =
     Inr sizes"
proof -
  let ?st = "\<lambda>f :: 'a shard. int (st_size f)"
  let ?stats = "map ?st files"
  let ?T = "sum_list ?stats"
  let ?mx = "\<lambda>f :: 'a shard. get_max_allowed_segments_for_text wc (sentences f) L"
  let ?maxs = "max_possible_segments_per_file wc files L"
  let ?r = "\<lambda>s. round_frac s ?T sz"
  let ?g = "\<lambda>f. if ?r (?st f) > ?mx f then ?mx f else ?r (?st f)"
  let ?sizes1 = "map (\<lambda>(s, m). if s > m then m else s) (zip (map ?r ?stats) ?maxs)"
  let ?sum = "sum_list ?sizes1"
  have maxs: "?maxs = map ?mx files" by (simp add: max_possible_segments_per_file_def)
  have s1: "?sizes1 = map ?g files" unfolding maxs by (rule capped_sizes_map)
  have T: "0 < ?T"
  proof -
    have "?T = int (sum_list (map st_size files))" by (induction files) simp_all
    with tot show ?thesis by simp
  qed
  have len: "length ?sizes1 = length files" unfolding s1 by simp
  have w1: "within ?maxs ?sizes1"
    by (rule within_cap) (simp add: max_possible_segments_per_file_def)
  from rc have rcf: "\<forall>f\<in>set files. 0 \<le> ?r (?st f) \<and> ?T * ?r (?st f) \<le> ?st f * sz + ?T"
    unfolding round_close_def Let_def list_all_iff by simp
  have pt: "\<forall>f\<in>set files. 0 \<le> ?g f \<and> 0 \<le> ?st f \<and> ?T * ?g f \<le> ?st f * sz + ?T"
  proof
    fix f assume f: "f \<in> set files"
    with rcf have r: "0 \<le> ?r (?st f)" "?T * ?r (?st f) \<le> ?st f * sz + ?T" by simp_all
    have m: "0 \<le> ?mx f" by (rule get_max_allowed_nonneg)
    have g0: "0 \<le> ?g f" using r(1) m by simp
    have "?g f \<le> ?r (?st f)" by simp
    with T have "?T * ?g f \<le> ?T * ?r (?st f)" by (intro mult_left_mono) simp_all
    from this r(2) have "?T * ?g f \<le> ?st f * sz + ?T" by (rule order_trans)
    with g0 show "0 \<le> ?g f \<and> 0 \<le> ?st f \<and> ?T * ?g f \<le> ?st f * sz + ?T" by simp
  qed
  have nn1: "list_all (\<lambda>s. 0 \<le> s) ?sizes1"
    unfolding s1 list_all_iff using pt by auto
  have "?T * sum_list (map ?g files) \<le>
      sz * sum_list (map ?st files) + ?T * int (length (filter (\<lambda>x. 0 < x) (map ?g files)))"
    using T sz pt by (intro weighted_sum_bound) simp_all
  then have "?T * ?sum \<le> ?T * (sz + int (length (filter (\<lambda>x. 0 < x) ?sizes1)))"
    unfolding s1 by (simp add: distrib_left mult.commute)
  with T have excess: "?sum \<le> sz + int (length (filter (\<lambda>x. 0 < x) ?sizes1))"
    by (simp only: mult_le_cancel_left_pos)
  have pset: "set permutation = {..<length ?sizes1}" using perm(2) len by simp
  have cnt: "length (filter (\<lambda>p. ?sizes1 ! p > 0) permutation) =
      length (filter (\<lambda>x. 0 < x) ?sizes1)"
    using perm(1) pset by (rule positive_count_perm)
  have idx: "\<forall>p\<in>set permutation. p < length ?sizes1" using pset by simp
  define r where "r =
     (if ?sum > sz then decrease_loop sz permutation ?sizes1 ?sum
      else if ?sum < sz then
        (case increase_loop sz ?maxs permutation ?sizes1 ?sum True of
           Inl e \<Rightarrow> Inl e
         | Inr (sizes2, sum2) \<Rightarrow>
             if sum2 < sz then Inl (ValueError_not_enough_files sz sum2)
             else Inr (sizes2, sum2))
      else Inr (?sizes1, ?sum))"
  have eq: "get_how_many_segments_to_cut_by_files wc round_frac permutation files sz L =
      (if files \<noteq> [] \<and> ?T = 0 then Inl ZeroDivisionError
       else case r of
              Inl e \<Rightarrow> Inl e
            | Inr (sizes, s) \<Rightarrow>
                if length sizes \<noteq> length files then Inl AssertionError
                else if \<not> list_all (\<lambda>s. s \<ge> 0) sizes then Inl AssertionError
                else if sum_list sizes \<noteq> sz then Inl AssertionError
                else Inr sizes)"
    unfolding get_how_many_segments_to_cut_by_files_def r_def Let_def ..
  have "\<exists>sizes'. r = Inr (sizes', sz) \<and> length sizes' = length ?sizes1 \<and>
      list_all (\<lambda>s. 0 \<le> s) sizes' \<and> sum_list sizes' = sz"
  proof (cases "?sum > sz")
    case True
    have 5: "sz \<le> ?sum" using True by simp
    have 6: "?sum - sz \<le> int (length (filter (\<lambda>p. ?sizes1 ! p > 0) permutation))"
      unfolding cnt using excess by simp
    from decrease_loop_reaches [OF perm(1) idx nn1 refl 5 6]
    show ?thesis unfolding r_def using True by simp
  next
    case False
    show ?thesis
    proof (cases "?sum < sz")
      case lt: True
      have 1: "{..<length ?sizes1} \<subseteq> set permutation" using pset by simp
      have 5: "?sum \<le> sz" using lt by simp
      have 6: "?sum < sz \<longrightarrow> True" by simp
      from increase_loop_reaches [OF 1 idx w1 refl 5 6 feas nn1]
      obtain sizes' where
        i: "increase_loop sz ?maxs permutation ?sizes1 ?sum True = Inr (sizes', sz)"
        and p: "length sizes' = length ?sizes1" "list_all (\<lambda>s. 0 \<le> s) sizes'"
          "sum_list sizes' = sz"
        by blast
      have "r = Inr (sizes', sz)" unfolding r_def using False lt i by simp
      with p show ?thesis by blast
    next
      case ge: False
      with False have e: "?sum = sz" by simp
      have "r = Inr (?sizes1, ?sum)" unfolding r_def using False ge by (simp only: if_False)
      with e nn1 show ?thesis by simp
    qed
  qed
  then obtain sizes' where r: "r = Inr (sizes', sz)" "length sizes' = length ?sizes1"
    "list_all (\<lambda>s. 0 \<le> s) sizes'" "sum_list sizes' = sz"
    by blast
  from T have "\<not> (files \<noteq> [] \<and> ?T = 0)" by simp
  with r len have "get_how_many_segments_to_cut_by_files wc round_frac permutation files sz L =
      Inr sizes'"
    unfolding eq by simp
  then show ?thesis by blast
qed

text \<open>
  C2. For every list of shard files and every \<open>size\<close>: a returned list has the length of
  the file list, every element within \<open>[0, max_possible_segments_per_file[i]]\<close> and sum
  exactly \<open>size\<close>, so no list with a smaller sum is returned; when the files cannot supply
  \<open>size\<close> segments the call raises; and when they can supply \<open>size\<close> segments, with
  \<open>size\<close> not negative, files that are not all empty, \<open>permutation\<close> a permutation of the
  indices and the rounding as in \<open>round_close\<close>, the call returns a list. The first two
  parts hold for every result of the rounding and every value of \<open>permutation\<close>.
\<close>

theorem get_how_many_segments_exact_or_raises:
  "(case get_how_many_segments_to_cut_by_files wc round_frac permutation files sz L of
      Inl e \<Rightarrow> True
    | Inr sizes \<Rightarrow>
        length sizes = length files \<and>
        (\<forall>i<length files. 0 \<le> sizes ! i \<and>
           sizes ! i \<le> max_possible_segments_per_file wc files L ! i) \<and>
        sum_list sizes = sz) \<and>
   (sum_list (max_possible_segments_per_file wc files L) < sz \<longrightarrow>
      isl (get_how_many_segments_to_cut_by_files wc round_frac permutation files sz L)) \<and>
   (distinct permutation \<and> set permutation = {..<length files} \<and>
    round_close round_frac files sz \<and> 0 \<le> sz \<and> 0 < sum_list (map st_size files) \<and>
    sz \<le> sum_list (max_possible_segments_per_file wc files L) \<longrightarrow>
      \<not> isl (get_how_many_segments_to_cut_by_files wc round_frac permutation files sz L))"
proof -
  have "distinct permutation \<and> set permutation = {..<length files} \<and>
    round_close round_frac files sz \<and> 0 \<le> sz \<and> 0 < sum_list (map st_size files) \<and>
    sz \<le> sum_list (max_possible_segments_per_file wc files L) \<longrightarrow>
      \<not> isl (get_how_many_segments_to_cut_by_files wc round_frac permutation files sz L)"
  proof
    assume h: "distinct permutation \<and> set permutation = {..<length files} \<and>
      round_close round_frac files sz \<and> 0 \<le> sz \<and> 0 < sum_list (map st_size files) \<and>
      sz \<le> sum_list (max_possible_segments_per_file wc files L)"
    then obtain sizes where
      "get_how_many_segments_to_cut_by_files wc round_frac permutation files sz L = Inr sizes"
      using get_how_many_returns [where permutation = permutation and files = files
        and round_frac = round_frac and sz = sz and wc = wc and L = L] by blast
    then show "\<not> isl (get_how_many_segments_to_cut_by_files wc round_frac permutation files sz L)"
      by simp
  qed
  then have c: "distinct permutation \<and> set permutation = {..<length files} \<and>
    round_close round_frac files sz \<and> 0 \<le> sz \<and> 0 < sum_list (map st_size files) \<and>
    sz \<le> sum_list (max_possible_segments_per_file wc files L) \<longrightarrow>
      \<not> isl (get_how_many_segments_to_cut_by_files wc round_frac permutation files sz L)" .
  note ab = get_how_many_sizes_or_raises [where wc = wc and round_frac = round_frac
      and permutation = permutation and files = files and sz = sz and L = L]
  show ?thesis by (rule conjI [OF ab [THEN conjunct1] conjI [OF ab [THEN conjunct2] c]])
qed

lemma three_sentences_max:
  "get_max_allowed_segments_for_text (\<lambda>c. c \<noteq> CHR '' '') (sentences three_sentences) 2 = 2"
  by code_simp

text \<open>The scenario of the spec: four shards that support two segments each, ten segments
  requested.\<close>

lemma not_enough_large_files:
  "max_possible_segments_per_file (\<lambda>c. c \<noteq> CHR '' '') (replicate 4 three_sentences) 2 = [2, 2, 2, 2] \<and>
   get_how_many_segments_to_cut_by_files (\<lambda>c. c \<noteq> CHR '' '') exact_round_frac [0, 1, 2, 3]
     (replicate 4 three_sentences) 10 2 = Inl (ValueError_not_enough_files 10 8)"
  by code_simp

theorem get_how_many_segments_exact_or_raises_witness:
  "distinct [1, 0::nat] \<and> set [1, 0] = {..<length [three_sentences, three_sentences]} \<and>
   round_close exact_round_frac [three_sentences, three_sentences] 3 \<and> (0::int) \<le> 3 \<and>
   0 < sum_list (map st_size [three_sentences, three_sentences]) \<and>
   3 \<le> sum_list (max_possible_segments_per_file (\<lambda>c. c \<noteq> CHR '' '')
      [three_sentences, three_sentences] 2) \<and>
   \<not> isl (get_how_many_segments_to_cut_by_files (\<lambda>c. c \<noteq> CHR '' '') exact_round_frac [1, 0]
     [three_sentences, three_sentences] 3 2) \<and>
   get_how_many_segments_to_cut_by_files (\<lambda>c. c \<noteq> CHR '' '') exact_round_frac [1, 0]
     [three_sentences, three_sentences] 3 2 = Inr [2, 1] \<and>
   [2, 1] ! 0 \<le> max_possible_segments_per_file (\<lambda>c. c \<noteq> CHR '' '')
      [three_sentences, three_sentences] 2 ! 0 \<and>
   [2, 1] ! 1 \<le> max_possible_segments_per_file (\<lambda>c. c \<noteq> CHR '' '')
      [three_sentences, three_sentences] 2 ! 1 \<and>
   sum_list (max_possible_segments_per_file (\<lambda>c. c \<noteq> CHR '' '') (replicate 4 three_sentences) 2)
     < 10 \<and>
   isl (get_how_many_segments_to_cut_by_files (\<lambda>c. c \<noteq> CHR '' '') exact_round_frac [0, 1, 2, 3]
     (replicate 4 three_sentences) 10 2)"
proof -
  note A = get_how_many_segments_exact_or_raises [where wc = "\<lambda>c. c \<noteq> CHR '' ''"
      and round_frac = exact_round_frac and permutation = "[1, 0]"
      and files = "[three_sentences, three_sentences]" and sz = 3 and L = 2]
  note B = get_how_many_segments_exact_or_raises [where wc = "\<lambda>c. c \<noteq> CHR '' ''"
      and round_frac = exact_round_frac and permutation = "[0, 1, 2, 3]"
      and files = "replicate 4 three_sentences" and sz = 10 and L = 2]
  have h1: "distinct [1, 0::nat]" by simp
  have h2: "set [1, 0] = {..<length [three_sentences, three_sentences]}" by auto
  have h3: "round_close exact_round_frac [three_sentences, three_sentences] 3" by code_simp
  have h4: "0 < sum_list (map st_size [three_sentences, three_sentences])" by code_simp
  have h5: "3 \<le> sum_list (max_possible_segments_per_file (\<lambda>c. c \<noteq> CHR '' '')
      [three_sentences, three_sentences] 2)"
    by code_simp
  have a: "get_how_many_segments_to_cut_by_files (\<lambda>c. c \<noteq> CHR '' '') exact_round_frac [1, 0]
     [three_sentences, three_sentences] 3 2 = Inr [2, 1]"
    by code_simp
  have b: "sum_list (max_possible_segments_per_file (\<lambda>c. c \<noteq> CHR '' '')
      (replicate 4 three_sentences) 2) < 10"
    by code_simp
  from A h1 h2 h3 h4 h5
  have n: "\<not> isl (get_how_many_segments_to_cut_by_files (\<lambda>c. c \<noteq> CHR '' '') exact_round_frac
      [1, 0] [three_sentences, three_sentences] 3 2)"
    by simp
  from A a have c: "\<forall>i<2. 0 \<le> [2, 1::int] ! i \<and>
      [2, 1] ! i \<le> max_possible_segments_per_file (\<lambda>c. c \<noteq> CHR '' '')
         [three_sentences, three_sentences] 2 ! i"
    by simp
  from c [rule_format, of 0] have c0: "[2, 1] ! 0 \<le> max_possible_segments_per_file
      (\<lambda>c. c \<noteq> CHR '' '') [three_sentences, three_sentences] 2 ! 0"
    by simp
  from c [rule_format, of 1] have c1: "[2, 1] ! 1 \<le> max_possible_segments_per_file
      (\<lambda>c. c \<noteq> CHR '' '') [three_sentences, three_sentences] 2 ! 1"
    by simp
  from B b have i: "isl (get_how_many_segments_to_cut_by_files (\<lambda>c. c \<noteq> CHR '' '')
      exact_round_frac [0, 1, 2, 3] (replicate 4 three_sentences) 10 2)"
    by blast
  from h1 h2 h3 h4 h5 n a c0 c1 b i show ?thesis by simp
qed

section \<open>Properties of the merge of small shards\<close>

text \<open>
  C3. The claim: after \<open>merge_small_files\<close> no merged shard is larger than the largest shard
  before the merge. A file is appended to the current one whenever the current one is below
  the maximum, whatever the size of the appended file: two shards of 5 and 10 bytes become
  one of 15 bytes, above the maximum 10.
\<close>

theorem merged_shard_exceeds_max:
  "merge_small_files [(0, 5), (1, 10)] [(100, 0), (101, 1)] =
     Inr ([(100, 0), (101, 0)], [(0, 15)]) \<and>
   Max (snd ` set [(0 :: int, 5 :: nat), (1, 10)]) < 15"
  by code_simp

lemma merge_example:
  "merge_small_files [(2, 4), (0, 5), (1, 10), (3, 10)] [(100, 0), (101, 1), (102, 2), (103, 0), (104, 3)] =
     Inr ([(100, 0), (103, 0), (101, 0), (102, 2), (104, 2)], [(0, 15), (2, 14)])"
  by code_simp

text \<open>\<open>reverse_doc_id_to_file_i\<close> keeps the documents and has the files of the map as keys.\<close>

lemma docs_map_empty: "docs_map Map.empty = {}"
  by (simp add: docs_map_def)

lemma docs_map_upd_app:
  assumes "m v = Some ks"
  shows "docs_map (m(v \<mapsto> ks @ [k])) = insert k (docs_map m)"
proof (rule set_eqI)
  fix x
  show "x \<in> docs_map (m(v \<mapsto> ks @ [k])) \<longleftrightarrow> x \<in> insert k (docs_map m)"
  proof
    assume "x \<in> docs_map (m(v \<mapsto> ks @ [k]))"
    then obtain f ds where f: "(m(v \<mapsto> ks @ [k])) f = Some ds" "x \<in> set ds"
      unfolding docs_map_def by blast
    show "x \<in> insert k (docs_map m)"
    proof (cases "f = v")
      case True
      with f have "x \<in> set ks \<or> x = k" by auto
      with assms show ?thesis unfolding docs_map_def by blast
    next
      case False
      with f have "m f = Some ds" by simp
      with f(2) show ?thesis unfolding docs_map_def by blast
    qed
  next
    assume "x \<in> insert k (docs_map m)"
    then consider "x = k" | f ds where "m f = Some ds" "x \<in> set ds"
      unfolding docs_map_def by blast
    then show "x \<in> docs_map (m(v \<mapsto> ks @ [k]))"
    proof cases
      case 1
      have "(m(v \<mapsto> ks @ [k])) v = Some (ks @ [k])" by simp
      moreover from 1 have "x \<in> set (ks @ [k])" by simp
      ultimately show ?thesis unfolding docs_map_def by blast
    next
      case 2
      show ?thesis
      proof (cases "f = v")
        case True
        with 2 assms have "x \<in> set (ks @ [k])" by simp
        moreover have "(m(v \<mapsto> ks @ [k])) v = Some (ks @ [k])" by simp
        ultimately show ?thesis unfolding docs_map_def by blast
      next
        case False
        with 2 have "(m(v \<mapsto> ks @ [k])) f = Some ds" by simp
        with 2(2) show ?thesis unfolding docs_map_def by blast
      qed
    qed
  qed
qed

lemma docs_map_upd_new:
  assumes "m v = None"
  shows "docs_map (m(v \<mapsto> [k])) = insert k (docs_map m)"
proof (rule set_eqI)
  fix x
  show "x \<in> docs_map (m(v \<mapsto> [k])) \<longleftrightarrow> x \<in> insert k (docs_map m)"
  proof
    assume "x \<in> docs_map (m(v \<mapsto> [k]))"
    then obtain f ds where f: "(m(v \<mapsto> [k])) f = Some ds" "x \<in> set ds"
      unfolding docs_map_def by blast
    show "x \<in> insert k (docs_map m)"
    proof (cases "f = v")
      case True
      with f show ?thesis by auto
    next
      case False
      with f have "m f = Some ds" by simp
      with f(2) show ?thesis unfolding docs_map_def by blast
    qed
  next
    assume "x \<in> insert k (docs_map m)"
    then consider "x = k" | f ds where "m f = Some ds" "x \<in> set ds"
      unfolding docs_map_def by blast
    then show "x \<in> docs_map (m(v \<mapsto> [k]))"
    proof cases
      case 1
      have "(m(v \<mapsto> [k])) v = Some [k]" by simp
      with 1 show ?thesis unfolding docs_map_def by fastforce
    next
      case 2
      with assms have "f \<noteq> v" by auto
      with 2 have "(m(v \<mapsto> [k])) f = Some ds" by simp
      with 2(2) show ?thesis unfolding docs_map_def by blast
    qed
  qed
qed

lemma docs_map_merge:
  assumes "m ci = Some cur" "m fi = Some ds" "ci \<noteq> fi"
  shows "docs_map ((m(ci \<mapsto> cur @ ds))(fi := None)) = docs_map m"
proof (rule set_eqI)
  let ?m = "(m(ci \<mapsto> cur @ ds))(fi := None)"
  fix x
  show "x \<in> docs_map ?m \<longleftrightarrow> x \<in> docs_map m"
  proof
    assume "x \<in> docs_map ?m"
    then obtain f es where f: "?m f = Some es" "x \<in> set es"
      unfolding docs_map_def by blast
    then have nf: "f \<noteq> fi" by (auto split: if_splits)
    show "x \<in> docs_map m"
    proof (cases "f = ci")
      case True
      with f assms(3) have "x \<in> set cur \<or> x \<in> set ds" by auto
      with assms(1,2) show ?thesis unfolding docs_map_def by blast
    next
      case False
      with f nf have "m f = Some es" by simp
      with f(2) show ?thesis unfolding docs_map_def by blast
    qed
  next
    assume "x \<in> docs_map m"
    then obtain f es where f: "m f = Some es" "x \<in> set es"
      unfolding docs_map_def by blast
    have c: "?m ci = Some (cur @ ds)" using assms(3) by simp
    show "x \<in> docs_map ?m"
    proof (cases "f = ci \<or> f = fi")
      case True
      with f assms(1,2) have "x \<in> set (cur @ ds)" by auto
      with c show ?thesis unfolding docs_map_def by blast
    next
      case False
      with f have "?m f = Some es" by simp
      with f(2) show ?thesis unfolding docs_map_def by blast
    qed
  qed
qed

lemma map_of_reverse_step:
  "map_of (reverse_step kv rv) =
     (map_of rv)(snd kv \<mapsto>
        (case map_of rv (snd kv) of Some ks \<Rightarrow> ks @ [fst kv] | None \<Rightarrow> [fst kv]))"
  by (simp add: reverse_step_def update_conv' split: option.splits)

lemma distinct_reverse_step:
  "distinct (map fst rv) \<Longrightarrow> distinct (map fst (reverse_step kv rv))"
  by (simp add: reverse_step_def distinct_update split: option.splits)

lemma docs_reverse_step:
  "docs_map (map_of (reverse_step kv rv)) = insert (fst kv) (docs_map (map_of rv))"
  by (cases "map_of rv (snd kv)")
     (simp_all add: map_of_reverse_step docs_map_upd_new docs_map_upd_app)

lemma dom_reverse_step:
  "dom (map_of (reverse_step kv rv)) = insert (snd kv) (dom (map_of rv))"
  by (simp add: map_of_reverse_step)

lemma reverse_fold:
  "distinct (map fst rv) \<Longrightarrow>
   distinct (map fst (fold reverse_step d rv)) \<and>
   docs_map (map_of (fold reverse_step d rv)) = fst ` set d \<union> docs_map (map_of rv) \<and>
   dom (map_of (fold reverse_step d rv)) = snd ` set d \<union> dom (map_of rv)"
proof (induction d arbitrary: rv)
  case Nil
  then show ?case by simp
next
  case (Cons kv d)
  from Cons.prems have "distinct (map fst (reverse_step kv rv))" by (rule distinct_reverse_step)
  from Cons.IH [OF this] show ?case
    by (simp add: docs_reverse_step dom_reverse_step)
qed

lemma reverse_doc_id_to_file_i_props:
  "distinct (map fst (reverse_doc_id_to_file_i d))"
  "docs_map (map_of (reverse_doc_id_to_file_i d)) = fst ` set d"
  "dom (map_of (reverse_doc_id_to_file_i d)) = snd ` set d"
  using reverse_fold [of "[]" d]
  by (simp_all add: reverse_doc_id_to_file_i_def docs_map_empty)

text \<open>The loop keeps the documents, leaves every key of the map among the files that stay on
  disk, and every such file is below twice the maximum.\<close>

lemma merge_loop_ok:
  assumes "distinct (map fst rv)"
    and "ci \<in> dom (map_of rv)" and "fst ` set files \<subseteq> dom (map_of rv)"
    and "distinct (ci # map fst files)"
    and "dom (map_of rv) \<subseteq> insert ci (fst ` set kept \<union> fst ` set files)"
    and "list_all (\<lambda>p. snd p \<le> mx) files"
    and "size_ok mx cs" and "list_all (\<lambda>p. size_ok mx (snd p)) kept"
  shows "\<exists>rv' kept'. merge_loop mx ci cs rv kept files = Inr (rv', kept') \<and>
     distinct (map fst rv') \<and> docs_map (map_of rv') = docs_map (map_of rv) \<and>
     dom (map_of rv') \<subseteq> fst ` set kept' \<and>
     fst ` set kept' \<subseteq> insert ci (fst ` set kept \<union> fst ` set files) \<and>
     list_all (\<lambda>p. size_ok mx (snd p)) kept' \<and>
     sum_list (map snd kept') = sum_list (map snd kept) + cs + sum_list (map snd files)"
  using assms
proof (induction files arbitrary: ci cs rv kept)
  case Nil
  then show ?case by auto
next
  case (Cons p files)
  obtain fi st where p: "p = (fi, st)" by (cases p)
  from Cons.prems(4) p have ne: "ci \<noteq> fi" and nin: "fi \<notin> fst ` set files"
    and cin: "ci \<notin> fst ` set files" and dist: "distinct (map fst files)"
    by auto
  from Cons.prems(3) p have fi_dom: "fi \<in> dom (map_of rv)"
    and files_dom: "fst ` set files \<subseteq> dom (map_of rv)"
    by auto
  from Cons.prems(6) p have st: "st \<le> mx" and files_mx: "list_all (\<lambda>p. snd p \<le> mx) files"
    by auto
  show ?case
  proof (cases "cs \<ge> mx")
    case True
    have 1: "distinct (fi # map fst files)" using nin dist by simp
    have 2: "dom (map_of rv) \<subseteq> insert fi (fst ` set (kept @ [(ci, cs)]) \<union> fst ` set files)"
      using Cons.prems(5) p by auto
    have 3: "size_ok mx st" using st by (simp add: size_ok_def)
    have 4: "list_all (\<lambda>p. size_ok mx (snd p)) (kept @ [(ci, cs)])"
      using Cons.prems(7,8) by simp
    from Cons.IH [OF Cons.prems(1) fi_dom files_dom 1 2 files_mx 3 4]
    obtain rv' kept' where r: "merge_loop mx fi st rv (kept @ [(ci, cs)]) files = Inr (rv', kept')"
      "distinct (map fst rv')" "docs_map (map_of rv') = docs_map (map_of rv)"
      "dom (map_of rv') \<subseteq> fst ` set kept'"
      "fst ` set kept' \<subseteq> insert fi (fst ` set (kept @ [(ci, cs)]) \<union> fst ` set files)"
      "list_all (\<lambda>p. size_ok mx (snd p)) kept'"
      "sum_list (map snd kept') =
         sum_list (map snd (kept @ [(ci, cs)])) + st + sum_list (map snd files)"
      by blast
    from r(1) True p have "merge_loop mx ci cs rv kept (p # files) = Inr (rv', kept')" by simp
    moreover from r(5) p have
      "fst ` set kept' \<subseteq> insert ci (fst ` set kept \<union> fst ` set (p # files))"
      by auto
    moreover from r(7) p have "sum_list (map snd kept') =
        sum_list (map snd kept) + cs + sum_list (map snd (p # files))"
      by simp
    ultimately show ?thesis using r(2,3,4,6) by blast
  next
    case False
    from Cons.prems(2) obtain cur where cur: "map_of rv ci = Some cur" by auto
    from fi_dom obtain ds where ds: "map_of rv fi = Some ds" by auto
    let ?rv = "AList.delete fi (AList.update ci (cur @ ds) rv)"
    have m: "map_of ?rv = ((map_of rv)(ci \<mapsto> cur @ ds))(fi := None)"
      by (simp add: delete_conv' update_conv')
    have 0: "distinct (map fst ?rv)"
      using Cons.prems(1) by (simp add: distinct_delete distinct_update)
    have d: "dom (map_of ?rv) = dom (map_of rv) - {fi}"
      unfolding m using cur by auto
    have 1: "ci \<in> dom (map_of ?rv)" unfolding d using Cons.prems(2) ne by simp
    have 2: "fst ` set files \<subseteq> dom (map_of ?rv)" unfolding d using files_dom nin by auto
    have 3: "distinct (ci # map fst files)" using cin dist by simp
    have 4: "dom (map_of ?rv) \<subseteq> insert ci (fst ` set kept \<union> fst ` set files)"
      unfolding d using Cons.prems(5) p by auto
    have 5: "size_ok mx (cs + st)" using False st by (simp add: size_ok_def)
    from Cons.IH [OF 0 1 2 3 4 files_mx 5 Cons.prems(8)]
    obtain rv' kept' where r: "merge_loop mx ci (cs + st) ?rv kept files = Inr (rv', kept')"
      "distinct (map fst rv')" "docs_map (map_of rv') = docs_map (map_of ?rv)"
      "dom (map_of rv') \<subseteq> fst ` set kept'"
      "fst ` set kept' \<subseteq> insert ci (fst ` set kept \<union> fst ` set files)"
      "list_all (\<lambda>p. size_ok mx (snd p)) kept'"
      "sum_list (map snd kept') = sum_list (map snd kept) + (cs + st) + sum_list (map snd files)"
      by blast
    from r(1) False p cur ds have "merge_loop mx ci cs rv kept (p # files) = Inr (rv', kept')"
      by simp
    moreover have "docs_map (map_of ?rv) = docs_map (map_of rv)"
      unfolding m using cur ds ne by (rule docs_map_merge)
    with r(3) have "docs_map (map_of rv') = docs_map (map_of rv)" by simp
    moreover from r(5) have
      "fst ` set kept' \<subseteq> insert ci (fst ` set kept \<union> fst ` set (p # files))"
      by auto
    moreover from r(7) p have "sum_list (map snd kept') =
        sum_list (map snd kept) + cs + sum_list (map snd (p # files))"
      by simp
    ultimately show ?thesis using r(2,4,6) by blast
  qed
qed

text \<open>\<open>rev_rev_doc_id_to_file_i\<close> gives every document of the map one file, a key of the map.\<close>

lemma snd_update_subset: "snd ` set (AList.update k v al) \<subseteq> insert v (snd ` set al)"
  by (induction al) auto

lemma rev_rev_inner:
  "distinct (map fst acc) \<Longrightarrow>
   distinct (map fst (fold (\<lambda>vv rr. AList.update vv k rr) v acc)) \<and>
   fst ` set (fold (\<lambda>vv rr. AList.update vv k rr) v acc) = fst ` set acc \<union> set v \<and>
   snd ` set (fold (\<lambda>vv rr. AList.update vv k rr) v acc) \<subseteq> insert k (snd ` set acc)"
proof (induction v arbitrary: acc)
  case Nil
  then show ?case by auto
next
  case (Cons x v)
  let ?acc = "AList.update x k acc"
  from Cons.prems have "distinct (map fst ?acc)" by (rule distinct_update)
  from Cons.IH [OF this] have
    a: "distinct (map fst (fold (\<lambda>vv rr. AList.update vv k rr) v ?acc))"
    and b: "fst ` set (fold (\<lambda>vv rr. AList.update vv k rr) v ?acc) = fst ` set ?acc \<union> set v"
    and c: "snd ` set (fold (\<lambda>vv rr. AList.update vv k rr) v ?acc) \<subseteq> insert k (snd ` set ?acc)"
    by blast+
  have e: "fst ` set ?acc = insert x (fst ` set acc)" by (simp add: dom_update)
  have s: "snd ` set ?acc \<subseteq> insert k (snd ` set acc)" by (rule snd_update_subset)
  have B: "fst ` set (fold (\<lambda>vv rr. AList.update vv k rr) v ?acc) = fst ` set acc \<union> set (x # v)"
    unfolding b e by auto
  have C: "snd ` set (fold (\<lambda>vv rr. AList.update vv k rr) v ?acc) \<subseteq> insert k (snd ` set acc)"
    using c s by blast
  show ?case using a B C by simp
qed

lemma rev_rev_outer:
  "distinct (map fst acc) \<Longrightarrow>
   distinct (map fst (fold (\<lambda>(k, v) rr. fold (\<lambda>vv rr. AList.update vv k rr) v rr) rv acc)) \<and>
   fst ` set (fold (\<lambda>(k, v) rr. fold (\<lambda>vv rr. AList.update vv k rr) v rr) rv acc) =
     fst ` set acc \<union> (\<Union>p\<in>set rv. set (snd p)) \<and>
   snd ` set (fold (\<lambda>(k, v) rr. fold (\<lambda>vv rr. AList.update vv k rr) v rr) rv acc) \<subseteq>
     snd ` set acc \<union> fst ` set rv"
proof (induction rv arbitrary: acc)
  case Nil
  then show ?case by auto
next
  case (Cons p rv)
  obtain k v where p: "p = (k, v)" by (cases p)
  let ?acc = "fold (\<lambda>vv rr. AList.update vv k rr) v acc"
  let ?F = "\<lambda>(k, v) rr. fold (\<lambda>vv rr. AList.update vv k rr) v rr"
  from rev_rev_inner [OF Cons.prems, of k v] have
    i: "distinct (map fst ?acc)" "fst ` set ?acc = fst ` set acc \<union> set v"
    "snd ` set ?acc \<subseteq> insert k (snd ` set acc)"
    by blast+
  from Cons.IH [OF i(1)] have
    a: "distinct (map fst (fold ?F rv ?acc))"
    and b: "fst ` set (fold ?F rv ?acc) = fst ` set ?acc \<union> (\<Union>p\<in>set rv. set (snd p))"
    and c: "snd ` set (fold ?F rv ?acc) \<subseteq> snd ` set ?acc \<union> fst ` set rv"
    by blast+
  have f: "fold ?F (p # rv) acc = fold ?F rv ?acc" using p by simp
  have B: "fst ` set (fold ?F rv ?acc) = fst ` set acc \<union> (\<Union>p\<in>set (p # rv). set (snd p))"
    unfolding b i(2) using p by auto
  have C: "snd ` set (fold ?F rv ?acc) \<subseteq> snd ` set acc \<union> fst ` set (p # rv)"
    using c i(3) p by auto
  show ?case unfolding f using a B C by blast
qed

lemma docs_map_distinct:
  assumes "distinct (map fst rv)"
  shows "docs_map (map_of rv) = (\<Union>p\<in>set rv. set (snd p))"
proof (rule set_eqI)
  fix x
  show "x \<in> docs_map (map_of rv) \<longleftrightarrow> x \<in> (\<Union>p\<in>set rv. set (snd p))"
  proof
    assume "x \<in> docs_map (map_of rv)"
    then obtain f ds where "map_of rv f = Some ds" "x \<in> set ds"
      unfolding docs_map_def by blast
    then have "(f, ds) \<in> set rv" "x \<in> set (snd (f, ds))"
      by (simp_all add: map_of_SomeD)
    then show "x \<in> (\<Union>p\<in>set rv. set (snd p))" by blast
  next
    assume "x \<in> (\<Union>p\<in>set rv. set (snd p))"
    then obtain f ds where "(f, ds) \<in> set rv" "x \<in> set ds" by auto
    with assms have "map_of rv f = Some ds" by simp
    with \<open>x \<in> set ds\<close> show "x \<in> docs_map (map_of rv)"
      unfolding docs_map_def by blast
  qed
qed

lemma rev_rev_props:
  assumes "distinct (map fst rv)"
  shows "distinct (map fst (rev_rev_doc_id_to_file_i rv))"
    and "fst ` set (rev_rev_doc_id_to_file_i rv) = docs_map (map_of rv)"
    and "snd ` set (rev_rev_doc_id_to_file_i rv) \<subseteq> fst ` set rv"
  using rev_rev_outer [of "[]" rv] docs_map_distinct [OF assms]
  by (simp_all add: rev_rev_doc_id_to_file_i_def)

lemma sum_list_insort_key:
  fixes f :: "'a \<Rightarrow> nat"
  shows "sum_list (map f (insort_key k x xs)) = f x + sum_list (map f xs)"
  by (induction xs) simp_all

lemma sum_list_sort_key:
  fixes f :: "'a \<Rightarrow> nat"
  shows "sum_list (map f (sort_key k xs)) = sum_list (map f xs)"
  by (induction xs) (simp_all add: sum_list_insort_key)

lemma distinct_map_fst_sort_key:
  "distinct (map fst xs) \<Longrightarrow> distinct (map fst (sort_key k xs))"
  by (simp add: distinct_map)

text \<open>
  C3, as amended: for a directory with at least one shard file, the stems distinct, and a map
  whose files are exactly the shard files of the directory, \<open>merge_small_files\<close> returns a map
  with the same document ids as before, each once, every one mapped to a shard file that is
  left on disk; the files left are files of the directory, their sizes sum to the total size
  before the merge, and each of them is at most the largest size before the merge or less
  than twice that size.
\<close>

theorem merge_small_files_keeps_documents:
  assumes ne: "document_dir \<noteq> []"
    and dist: "distinct (map fst document_dir)"
    and cons: "snd ` set doc_id_to_file_i = fst ` set document_dir"
  shows "\<exists>d' kept. merge_small_files document_dir doc_id_to_file_i = Inr (d', kept) \<and>
     distinct (map fst d') \<and>
     fst ` set d' = fst ` set doc_id_to_file_i \<and>
     snd ` set d' \<subseteq> fst ` set kept \<and>
     fst ` set kept \<subseteq> fst ` set document_dir \<and>
     (\<forall>(f, s) \<in> set kept. s \<le> Max (snd ` set document_dir) \<or>
        s < 2 * Max (snd ` set document_dir)) \<and>
     sum_list (map snd kept) = sum_list (map snd document_dir)"
proof -
  let ?files = "sort_key fst document_dir"
  let ?rv = "reverse_doc_id_to_file_i doc_id_to_file_i"
  have set_files: "set ?files = set document_dir" by simp
  from ne have "?files \<noteq> []" by (metis length_0_conv length_sort)
  then obtain p rest where files: "?files = p # rest" by (cases ?files) auto
  obtain f0 s0 where p: "p = (f0, s0)" by (cases p)
  define mx where "mx = fold max (map snd rest) s0"
  have mx: "mx = Max (snd ` set document_dir)"
  proof -
    have "mx = Max (set (s0 # map snd rest))" unfolding mx_def by (rule Max.set_eq_fold [symmetric])
    also have "set (s0 # map snd rest) = snd ` set ?files" using files p by simp
    finally show ?thesis by (simp only: set_files)
  qed
  have dfiles: "distinct (map fst ?files)" using dist by (rule distinct_map_fst_sort_key)
  have keys: "fst ` set document_dir = insert f0 (fst ` set rest)"
    using set_files files p by (metis fst_conv image_insert list.simps(15))
  note rp = reverse_doc_id_to_file_i_props [of doc_id_to_file_i]
  have dom: "dom (map_of ?rv) = insert f0 (fst ` set rest)"
    using rp(3) cons keys by simp
  have 1: "f0 \<in> dom (map_of ?rv)" unfolding dom by simp
  have 2: "fst ` set rest \<subseteq> dom (map_of ?rv)" unfolding dom by blast
  have 3: "distinct (f0 # map fst rest)" using dfiles files p by simp
  have 4: "dom (map_of ?rv) \<subseteq> insert f0 (fst ` set ([] :: (int \<times> nat) list) \<union> fst ` set rest)" unfolding dom by simp
  have le: "s \<le> mx" if "s \<in> snd ` set document_dir" for s
    unfolding mx using that by simp
  have 5: "list_all (\<lambda>p. snd p \<le> mx) rest"
    unfolding list_all_iff
  proof
    fix q assume "q \<in> set rest"
    then have "q \<in> set document_dir" using set_files files by (metis list.set_intros(2))
    then show "snd q \<le> mx" by (intro le) simp
  qed
  have "(f0, s0) \<in> set document_dir" using set_files files p by (metis list.set_intros(1))
  then have "s0 \<le> mx" by (intro le) force
  then have 6: "size_ok mx s0" by (simp add: size_ok_def)
  have 7: "list_all (\<lambda>p. size_ok mx (snd p)) ([] :: (int \<times> nat) list)" by simp
  have "\<exists>rv' kept'. merge_loop mx f0 s0 ?rv [] rest = Inr (rv', kept') \<and>
     distinct (map fst rv') \<and> docs_map (map_of rv') = docs_map (map_of ?rv) \<and>
     dom (map_of rv') \<subseteq> fst ` set kept' \<and>
     fst ` set kept' \<subseteq> insert f0 (fst ` set ([] :: (int \<times> nat) list) \<union> fst ` set rest) \<and>
     list_all (\<lambda>p. size_ok mx (snd p)) kept' \<and>
     sum_list (map snd kept') = sum_list (map snd ([] :: (int \<times> nat) list)) + s0 + sum_list (map snd rest)"
    by (rule merge_loop_ok [OF rp(1) 1 2 3 4 5 6 7])
  then obtain rv' kept where rall: "merge_loop mx f0 s0 ?rv [] rest = Inr (rv', kept) \<and>
     distinct (map fst rv') \<and> docs_map (map_of rv') = docs_map (map_of ?rv) \<and>
     dom (map_of rv') \<subseteq> fst ` set kept \<and>
     fst ` set kept \<subseteq> insert f0 (fst ` set ([] :: (int \<times> nat) list) \<union> fst ` set rest) \<and>
     list_all (\<lambda>p. size_ok mx (snd p)) kept \<and>
     sum_list (map snd kept) = sum_list (map snd ([] :: (int \<times> nat) list)) + s0 + sum_list (map snd rest)"
    by (elim exE) (rule that)
  note r = rall [THEN conjunct1] rall [THEN conjunct2, THEN conjunct1]
    rall [THEN conjunct2, THEN conjunct2, THEN conjunct1]
    rall [THEN conjunct2, THEN conjunct2, THEN conjunct2, THEN conjunct1]
    rall [THEN conjunct2, THEN conjunct2, THEN conjunct2, THEN conjunct2, THEN conjunct1]
    rall [THEN conjunct2, THEN conjunct2, THEN conjunct2, THEN conjunct2, THEN conjunct2, THEN conjunct1]
    rall [THEN conjunct2, THEN conjunct2, THEN conjunct2, THEN conjunct2, THEN conjunct2, THEN conjunct2]
  note rr = rev_rev_props [OF r(2)]
  have res: "merge_small_files document_dir doc_id_to_file_i =
      Inr (rev_rev_doc_id_to_file_i rv', kept)"
    unfolding merge_small_files_def Let_def files p using r(1) by (simp add: mx_def)
  have a: "fst ` set (rev_rev_doc_id_to_file_i rv') = fst ` set doc_id_to_file_i"
    using rr(2) r(3) rp(2) by simp
  have b: "snd ` set (rev_rev_doc_id_to_file_i rv') \<subseteq> fst ` set kept"
    using rr(3) r(4) by (simp add: dom_map_of_conv_image_fst)
  have c: "fst ` set kept \<subseteq> fst ` set document_dir" using r(5) keys by simp
  have d: "\<forall>(f, s) \<in> set kept. s \<le> Max (snd ` set document_dir) \<or>
      s < 2 * Max (snd ` set document_dir)"
    using r(6) unfolding list_all_iff size_ok_def mx by auto
  have "sum_list (map snd ?files) = sum_list (map snd document_dir)" by (rule sum_list_sort_key)
  with r(7) files p have e: "sum_list (map snd kept) = sum_list (map snd document_dir)" by simp
  from res rr(1) a b c d e show ?thesis by blast
qed

theorem merge_small_files_keeps_documents_witness:
  "[(2, 4), (0, 5), (1, 10), (3, 10)] \<noteq> ([] :: (int \<times> nat) list) \<and>
   distinct (map fst [(2, 4), (0, 5), (1, 10), (3, 10 :: nat)] :: int list) \<and>
   snd ` set [(100, 0), (101, 1), (102, 2), (103, 0), (104, 3 :: int)] =
     (fst ` set [(2, 4), (0, 5), (1, 10), (3, 10 :: nat)] :: int set) \<and>
   merge_small_files [(2, 4), (0, 5), (1, 10), (3, 10)]
       [(100, 0), (101, 1), (102, 2), (103, 0), (104, 3)] =
     Inr ([(100, 0), (103, 0), (101, 0), (102, 2), (104, 2)], [(0, 15), (2, 14)]) \<and>
   distinct (map fst [(100, 0), (103, 0), (101, 0), (102, 2), (104, 2 :: int)] :: int list) \<and>
   fst ` set [(100, 0), (103, 0), (101, 0), (102, 2), (104, 2 :: int)] =
     (fst ` set [(100, 0), (101, 1), (102, 2), (103, 0), (104, 3 :: int)] :: int set) \<and>
   (15 \<le> Max (snd ` set [(2 :: int, 4), (0, 5), (1, 10), (3, 10 :: nat)]) \<or>
    15 < 2 * Max (snd ` set [(2 :: int, 4), (0, 5), (1, 10), (3, 10 :: nat)])) \<and>
   (14 \<le> Max (snd ` set [(2 :: int, 4), (0, 5), (1, 10), (3, 10 :: nat)]) \<or>
    14 < 2 * Max (snd ` set [(2 :: int, 4), (0, 5), (1, 10), (3, 10 :: nat)])) \<and>
   sum_list (map snd [(0 :: int, 15), (2, 14 :: nat)]) =
     sum_list (map snd [(2 :: int, 4), (0, 5), (1, 10), (3, 10 :: nat)])"
proof -
  have p1: "[(2, 4), (0, 5), (1, 10), (3, 10)] \<noteq> ([] :: (int \<times> nat) list)" by simp
  have p2: "distinct (map fst [(2, 4), (0, 5), (1, 10), (3, 10 :: nat)] :: int list)" by simp
  have p3: "snd ` set [(100, 0), (101, 1), (102, 2), (103, 0), (104, 3 :: int)] =
     (fst ` set [(2, 4), (0, 5), (1, 10), (3, 10 :: nat)] :: int set)"
    by auto
  have ev: "merge_small_files [(2, 4), (0, 5), (1, 10), (3, 10)]
       [(100, 0), (101, 1), (102, 2), (103, 0), (104, 3)] =
     Inr ([(100, 0), (103, 0), (101, 0), (102, 2), (104, 2)], [(0, 15), (2, 14)])"
    by code_simp
  from merge_small_files_keeps_documents [OF p1 p2 p3]
  obtain d' kept where r: "merge_small_files [(2, 4), (0, 5), (1, 10), (3, 10)]
       [(100, 0), (101, 1), (102, 2), (103, 0), (104, 3)] = Inr (d', kept)"
    and r1: "distinct (map fst d')"
    and r2: "fst ` set d' = fst ` set [(100, 0), (101, 1), (102, 2), (103, 0), (104, 3 :: int)]"
    and r5: "\<forall>(f, s) \<in> set kept. s \<le> Max (snd ` set [(2 :: int, 4), (0, 5), (1, 10), (3, 10 :: nat)]) \<or>
        s < 2 * Max (snd ` set [(2 :: int, 4), (0, 5), (1, 10), (3, 10 :: nat)])"
    and r6: "sum_list (map snd kept) = sum_list (map snd [(2 :: int, 4), (0, 5), (1, 10), (3, 10 :: nat)])"
    by (elim exE conjE) (rule that)
  from r ev have d: "d' = [(100, 0), (103, 0), (101, 0), (102, 2), (104, 2)]"
    and k: "kept = [(0, 15), (2, 14)]"
    by simp_all
  from r5 have q1: "15 \<le> Max (snd ` set [(2 :: int, 4), (0, 5), (1, 10), (3, 10 :: nat)]) \<or>
    15 < 2 * Max (snd ` set [(2 :: int, 4), (0, 5), (1, 10), (3, 10 :: nat)])"
    and q2: "14 \<le> Max (snd ` set [(2 :: int, 4), (0, 5), (1, 10), (3, 10 :: nat)]) \<or>
    14 < 2 * Max (snd ` set [(2 :: int, 4), (0, 5), (1, 10), (3, 10 :: nat)])"
    unfolding k by simp_all
  show ?thesis
    using p1 p2 p3 ev r1 [unfolded d] r2 [unfolded d] q1 q2 r6 [unfolded k]
    by (intro conjI)
qed

section \<open>Properties of the progress consumer\<close>

text \<open>The inner loop returns exactly when the queue holds a \<open>-1\<close>; one run of the \<open>for\<close> loop
  finalizes the bar of every queue it visits, and logs a warning for each bar whose counter
  is below its total.\<close>

lemma drain_None: "drain a vs = None \<longleftrightarrow> - 1 \<notin> set vs"
  by (induction vs arbitrary: a) auto

lemma for_body_None: "for_body tnl i st = None \<longleftrightarrow> - 1 \<notin> set (queues st ! i)"
proof (cases "drain 0 (queues st ! i)")
  case None
  then show ?thesis using drain_None [of 0 "queues st ! i"] by (simp add: for_body_def)
next
  case (Some p)
  obtain added rest where p: "p = (added, rest)" by (cases p)
  from Some have "- 1 \<in> set (queues st ! i)" using drain_None [of 0 "queues st ! i"] by simp
  with Some p show ?thesis by (simp add: for_body_def Let_def)
qed

lemma for_body_Some:
  assumes r: "for_body tnl i st = Some r"
    and i: "i < length (prog st)" "i < length tnl" "i < length (finished st)"
  shows "\<exists>st'. r = Inr st' \<and> length (prog st') = length (prog st) \<and>
     length (finished st') = length (finished st) \<and>
     length (queues st') = length (queues st) \<and>
     finished st' = (finished st)[i := True] \<and>
     (\<forall>j. j \<noteq> i \<longrightarrow> queues st' ! j = queues st ! j \<and> prog st' ! j = prog st ! j) \<and>
     bar_closed (prog st' ! i) \<and>
     warnings st' = warnings st @
       (if bar_n (prog st ! i) < tnl ! i then [(bar_n (prog st ! i), tnl ! i)] else [])"
proof (cases "drain 0 (queues st ! i)")
  case None
  with r show ?thesis by (simp add: for_body_def)
next
  case (Some p)
  obtain added rest where p: "p = (added, rest)" by (cases p)
  define st1 where "st1 = st\<lparr>queues := (queues st)[i := rest]\<rparr>"
  define st2 where "st2 = finalize_bar tnl i st1"
  define st3 where "st3 = add_to_bar tnl i (- 1) st2"
  from r Some p i have res: "r = Inr st3"
    by (simp add: for_body_def Let_def st1_def st2_def st3_def)
  have s1: "prog st1 = prog st" "finished st1 = finished st" "warnings st1 = warnings st"
    "queues st1 = (queues st)[i := rest]"
    by (simp_all add: st1_def)
  have s2: "prog st2 = (prog st)[i := (prog st ! i)\<lparr>bar_closed := True\<rparr>]"
    "finished st2 = (finished st)[i := True]"
    "queues st2 = (queues st)[i := rest]"
    "warnings st2 = warnings st @
       (if bar_n (prog st ! i) < tnl ! i then [(bar_n (prog st ! i), tnl ! i)] else [])"
    by (simp_all add: st2_def finalize_bar_def Let_def s1)
  from i have pi: "prog st2 ! i = (prog st ! i)\<lparr>bar_closed := True\<rparr>" by (simp add: s2)
  have s3: "length (prog st3) = length (prog st)"
    "finished st3 = (finished st)[i := True]"
    "queues st3 = (queues st)[i := rest]"
    "warnings st3 = warnings st2"
    "\<forall>j. j \<noteq> i \<longrightarrow> prog st3 ! j = prog st ! j"
    "bar_closed (prog st3 ! i)"
    using i by (simp_all add: st3_def add_to_bar_def Let_def s2)
  from s3 s2(4) have "length (prog st3) = length (prog st) \<and>
     length (finished st3) = length (finished st) \<and>
     length (queues st3) = length (queues st) \<and>
     finished st3 = (finished st)[i := True] \<and>
     (\<forall>j. j \<noteq> i \<longrightarrow> queues st3 ! j = queues st ! j \<and> prog st3 ! j = prog st ! j) \<and>
     bar_closed (prog st3 ! i) \<and>
     warnings st3 = warnings st @
       (if bar_n (prog st ! i) < tnl ! i then [(bar_n (prog st ! i), tnl ! i)] else [])"
    by simp
  with res show ?thesis by blast
qed

lemma for_queues_result:
  assumes "distinct is" "\<forall>i\<in>set is. i < n" "length (prog st) = n" "length tnl = n"
    "length (finished st) = n"
  shows "case for_queues tnl is st of
           None \<Rightarrow> \<exists>i\<in>set is. - 1 \<notin> set (queues st ! i)
         | Some r \<Rightarrow> (\<forall>i\<in>set is. - 1 \<in> set (queues st ! i)) \<and>
             (\<exists>st'. r = Inr st' \<and> length (prog st') = n \<and> length (finished st') = n \<and>
                length (queues st') = length (queues st) \<and>
                (\<forall>j<n. finished st' ! j \<longleftrightarrow> finished st ! j \<or> j \<in> set is) \<and>
                (\<forall>j. j \<notin> set is \<longrightarrow> queues st' ! j = queues st ! j \<and> prog st' ! j = prog st ! j) \<and>
                (\<forall>i\<in>set is. bar_closed (prog st' ! i)) \<and>
                warnings st' = warnings st @
                  map (\<lambda>i. (bar_n (prog st ! i), tnl ! i))
                    (filter (\<lambda>i. bar_n (prog st ! i) < tnl ! i) is))"
  using assms
proof (induction "is" arbitrary: st)
  case Nil
  then show ?case by simp
next
  case (Cons i "is")
  from Cons.prems have i: "i < n" and nin: "i \<notin> set is" and d: "distinct is"
    and lt: "\<forall>i\<in>set is. i < n"
    by simp_all
  show ?case
  proof (cases "for_body tnl i st")
    case None
    then have "- 1 \<notin> set (queues st ! i)" by (simp add: for_body_None)
    with None show ?thesis by simp
  next
    case (Some r)
    then have has: "- 1 \<in> set (queues st ! i)"
      using for_body_None [of tnl i st] by simp
    from for_body_Some [OF Some] i Cons.prems(3,4,5)
    obtain st1 where r: "r = Inr st1" and l1: "length (prog st1) = n" "length (finished st1) = n"
      "length (queues st1) = length (queues st)"
      and f1: "finished st1 = (finished st)[i := True]"
      and o1: "\<forall>j. j \<noteq> i \<longrightarrow> queues st1 ! j = queues st ! j \<and> prog st1 ! j = prog st ! j"
      and c1: "bar_closed (prog st1 ! i)"
      and w1: "warnings st1 = warnings st @
         (if bar_n (prog st ! i) < tnl ! i then [(bar_n (prog st ! i), tnl ! i)] else [])"
      by auto
    have step: "for_queues tnl (i # is) st = for_queues tnl is st1"
      using Some r by simp
    note IH = Cons.IH [OF d lt l1(1) Cons.prems(4) l1(2)]
    have same: "queues st1 ! j = queues st ! j \<and> prog st1 ! j = prog st ! j" if "j \<in> set is" for j
      using o1 nin that by auto
    have mf: "map (\<lambda>i. (bar_n (prog st1 ! i), tnl ! i)) (filter (\<lambda>i. bar_n (prog st1 ! i) < tnl ! i) is)
        = map (\<lambda>i. (bar_n (prog st ! i), tnl ! i)) (filter (\<lambda>i. bar_n (prog st ! i) < tnl ! i) is)"
    proof -
      have fe: "filter (\<lambda>i. bar_n (prog st1 ! i) < tnl ! i) is = filter (\<lambda>i. bar_n (prog st ! i) < tnl ! i) is"
        by (rule filter_cong) (simp_all add: same)
      have "map (\<lambda>i. (bar_n (prog st1 ! i), tnl ! i)) (filter (\<lambda>i. bar_n (prog st ! i) < tnl ! i) is)
          = map (\<lambda>i. (bar_n (prog st ! i), tnl ! i)) (filter (\<lambda>i. bar_n (prog st ! i) < tnl ! i) is)"
        by (rule map_cong) (simp_all add: same)
      with fe show ?thesis by simp
    qed
    show ?thesis
    proof (cases "for_queues tnl is st1")
      case None
      with IH obtain j where "j \<in> set is" "- 1 \<notin> set (queues st1 ! j)" by auto
      with same have "j \<in> set (i # is)" "- 1 \<notin> set (queues st ! j)" by auto
      then have "\<exists>j\<in>set (i # is). - 1 \<notin> set (queues st ! j)" by blast
      with None step show ?thesis by simp
    next
      case (Some r2)
      with IH obtain st' where a: "\<forall>j\<in>set is. - 1 \<in> set (queues st1 ! j)"
        and r2: "r2 = Inr st'" and l2: "length (prog st') = n" "length (finished st') = n"
          "length (queues st') = length (queues st1)"
        and f2: "\<forall>j<n. finished st' ! j \<longleftrightarrow> finished st1 ! j \<or> j \<in> set is"
        and o2: "\<forall>j. j \<notin> set is \<longrightarrow> queues st' ! j = queues st1 ! j \<and> prog st' ! j = prog st1 ! j"
        and c2: "\<forall>i\<in>set is. bar_closed (prog st' ! i)"
        and w2: "warnings st' = warnings st1 @
            map (\<lambda>i. (bar_n (prog st1 ! i), tnl ! i))
              (filter (\<lambda>i. bar_n (prog st1 ! i) < tnl ! i) is)"
        by auto
      have A: "\<forall>j\<in>set (i # is). - 1 \<in> set (queues st ! j)"
        using has a same by auto
      have B: "\<forall>j<n. finished st' ! j \<longleftrightarrow> finished st ! j \<or> j \<in> set (i # is)"
      proof (intro allI impI)
        fix j assume j: "j < n"
        have "finished st1 ! j \<longleftrightarrow> finished st ! j \<or> j = i"
          using f1 j Cons.prems(5) by (cases "j = i") simp_all
        with f2 j show "finished st' ! j \<longleftrightarrow> finished st ! j \<or> j \<in> set (i # is)" by auto
      qed
      have C: "\<forall>j. j \<notin> set (i # is) \<longrightarrow> queues st' ! j = queues st ! j \<and> prog st' ! j = prog st ! j"
        using o1 o2 by simp
      have D: "\<forall>j\<in>set (i # is). bar_closed (prog st' ! j)"
        using c1 c2 o2 nin by auto
      have E: "warnings st' = warnings st @
            map (\<lambda>i. (bar_n (prog st ! i), tnl ! i))
              (filter (\<lambda>i. bar_n (prog st ! i) < tnl ! i) (i # is))"
        using w1 w2 mf by simp
      have F: "length (queues st') = length (queues st)" using l2 l1 by simp
      from A B C D E F l2 r2 Some step show ?thesis by simp
    qed
  qed
qed

lemma finish_has_sentinel: "i < length q \<Longrightarrow> - 1 \<in> set (finish q ! i)"
  by (simp add: finish_def)

lemma show_prog_result:
  assumes len: "length total_num_lines = length q" "length descriptions = length q"
    "length units = length q"
  shows "case show_prog q total_num_lines descriptions units of
           None \<Rightarrow> \<exists>i<length q. - 1 \<notin> set (q ! i)
         | Some (Inl e) \<Rightarrow> False
         | Some (Inr st) \<Rightarrow>
             (\<forall>i<length q. - 1 \<in> set (q ! i)) \<and>
             length (finished st) = length q \<and> list_all (\<lambda>b. b) (finished st) \<and>
             length (prog st) = length q \<and> list_all bar_closed (prog st) \<and>
             warnings st = map (\<lambda>i. (0, total_num_lines ! i))
               (filter (\<lambda>i. 0 < total_num_lines ! i) [0..<length q])"
proof -
  define n where "n = length q"
  define st0 where "st0 =
     \<lparr>prog = map (\<lambda>(tt, dd, uu). \<lparr>bar_n = 0, bar_total = tt, bar_closed = False\<rparr>)
                 (zip total_num_lines (zip descriptions units)),
        finished = replicate (length q) False,
        queues = q,
        warnings = []\<rparr>"
  have sp: "show_prog q total_num_lines descriptions units = while_true total_num_lines st0"
    by (simp add: show_prog_def st0_def)
  have l0: "length (prog st0) = n" "length (finished st0) = n" "length total_num_lines = n"
    "queues st0 = q" "warnings st0 = []"
    using len by (simp_all add: st0_def n_def)
  have n0: "bar_n (prog st0 ! i) = 0" if "i < n" for i
    using that len by (simp add: st0_def n_def)
  have d: "distinct [0..<n]" and lt: "\<forall>i\<in>set [0..<n]. i < n" by simp_all
  note R = for_queues_result [OF d lt l0(1) l0(3) l0(2)]
  have fe: "filter (\<lambda>i. bar_n (prog st0 ! i) < total_num_lines ! i) [0..<n]
      = filter (\<lambda>i. 0 < total_num_lines ! i) [0..<n]"
    by (rule filter_cong) (simp_all add: n0)
  have me: "map (\<lambda>i. (bar_n (prog st0 ! i), total_num_lines ! i)) xs
      = map (\<lambda>i. (0, total_num_lines ! i)) xs" if "set xs \<subseteq> {..<n}" for xs
    by (rule map_cong) (use that n0 in auto)
  have w0: "map (\<lambda>i. (bar_n (prog st0 ! i), total_num_lines ! i))
        (filter (\<lambda>i. bar_n (prog st0 ! i) < total_num_lines ! i) [0..<n])
      = map (\<lambda>i. (0, total_num_lines ! i)) (filter (\<lambda>i. 0 < total_num_lines ! i) [0..<n])"
    unfolding fe by (rule me) auto
  have unfold: "while_true total_num_lines st0 =
     (case for_queues total_num_lines [0..<n] st0 of
        None \<Rightarrow> None
      | Some r \<Rightarrow>
          (case r of
             Inl e \<Rightarrow> Some (Inl e)
           | Inr st' \<Rightarrow>
               if list_all (\<lambda>b. b) (finished st') then Some (Inr st')
               else while_true total_num_lines st'))"
    by (subst while_true.simps) (simp add: l0 n_def)
  show ?thesis
  proof (cases "for_queues total_num_lines [0..<n] st0")
    case None
    with R have "\<exists>i<n. - 1 \<notin> set (q ! i)" by (auto simp: l0)
    moreover from None unfold sp have "show_prog q total_num_lines descriptions units = None"
      by simp
    ultimately show ?thesis by (simp add: n_def)
  next
    case (Some r)
    with R obtain st' where a: "\<forall>i<n. - 1 \<in> set (q ! i)"
      and r: "r = Inr st'" and l: "length (prog st') = n" "length (finished st') = n"
      and f: "\<forall>j<n. finished st' ! j \<longleftrightarrow> finished st0 ! j \<or> j \<in> set [0..<n]"
      and c: "\<forall>i\<in>set [0..<n]. bar_closed (prog st' ! i)"
      and w: "warnings st' = warnings st0 @
          map (\<lambda>i. (bar_n (prog st0 ! i), total_num_lines ! i))
            (filter (\<lambda>i. bar_n (prog st0 ! i) < total_num_lines ! i) [0..<n])"
      by (auto simp: l0)
    from f l have fin: "list_all (\<lambda>b. b) (finished st')" by (simp add: list_all_length)
    from c l have cl: "list_all bar_closed (prog st')" by (simp add: list_all_length)
    from w w0 l0 have ws: "warnings st' = map (\<lambda>i. (0, total_num_lines ! i))
        (filter (\<lambda>i. 0 < total_num_lines ! i) [0..<n])"
      by simp
    from Some r fin unfold sp have "show_prog q total_num_lines descriptions units = Some (Inr st')"
      by simp
    with a l fin cl ws show ?thesis by (simp add: n_def)
  qed
qed

text \<open>
  C9. With as many totals, descriptions and units as queues (\<open>Progress.__init__\<close> makes the
  lists so), \<open>show_prog\<close> raises no error. It returns only if every queue held the value
  \<open>-1\<close>, and then every bar is marked finished and closed, and a warning was logged, without
  an error, for exactly the bars whose counter, 0 when the \<open>-1\<close> is read, is below the declared
  total. If some queue holds no \<open>-1\<close> the consumer does not return. After \<open>Progress.finish\<close>
  it returns.
\<close>

theorem show_prog_finalizes_every_bar:
  assumes len: "length total_num_lines = length q" "length descriptions = length q"
    "length units = length q"
  shows "(case show_prog q total_num_lines descriptions units of
            None \<Rightarrow> \<exists>i<length q. - 1 \<notin> set (q ! i)
          | Some (Inl e) \<Rightarrow> False
          | Some (Inr st) \<Rightarrow>
              (\<forall>i<length q. - 1 \<in> set (q ! i)) \<and>
              length (finished st) = length q \<and> list_all (\<lambda>b. b) (finished st) \<and>
              length (prog st) = length q \<and> list_all bar_closed (prog st) \<and>
              warnings st = map (\<lambda>i. (0, total_num_lines ! i))
                (filter (\<lambda>i. 0 < total_num_lines ! i) [0..<length q])) \<and>
         (\<exists>st. show_prog (finish q) total_num_lines descriptions units = Some (Inr st))"
proof -
  have lf: "length (finish q) = length q" by (simp add: finish_def)
  note F = show_prog_result [where q = "finish q" and total_num_lines = total_num_lines
      and descriptions = descriptions and units = units, unfolded lf, OF len]
  have "\<exists>st. show_prog (finish q) total_num_lines descriptions units = Some (Inr st)"
  proof (cases "show_prog (finish q) total_num_lines descriptions units")
    case None
    with F obtain i where "i < length q" "- 1 \<notin> set (finish q ! i)" by auto
    with finish_has_sentinel [of i q] show ?thesis by simp
  next
    case (Some r)
    with F show ?thesis by (cases r) simp_all
  qed
  with show_prog_result [OF len] show ?thesis by (rule conjI)
qed

theorem show_prog_finalizes_every_bar_witness:
  "length [7, 0 :: int] = length [[3, 4, - 1], [- 1, 5 :: int]] \<and>
   length [''a'', ''b''] = length [[3, 4, - 1], [- 1, 5 :: int]] \<and>
   length [''u'', ''u''] = length [[3, 4, - 1], [- 1, 5 :: int]] \<and>
   show_prog [[3, 4, - 1], [- 1, 5]] [7, 0] [''a'', ''b''] [''u'', ''u''] =
     Some (Inr \<lparr>prog = [\<lparr>bar_n = - 1, bar_total = 7, bar_closed = True\<rparr>,
                         \<lparr>bar_n = - 1, bar_total = 0, bar_closed = True\<rparr>],
                 finished = [True, True], queues = [[], [5]], warnings = [(0, 7)]\<rparr>) \<and>
   list_all (\<lambda>b. b) [True, True] \<and>
   [(0, 7)] = map (\<lambda>i. (0 :: int, [7, 0 :: int] ! i))
     (filter (\<lambda>i. 0 < [7, 0 :: int] ! i) [0..<length [[3, 4, - 1], [- 1, 5 :: int]]]) \<and>
   (\<exists>st. show_prog (finish [[3, 4, - 1], [- 1, 5]]) [7, 0] [''a'', ''b''] [''u'', ''u''] =
      Some (Inr st))"
proof -
  have l1: "length [7, 0 :: int] = length [[3, 4, - 1], [- 1, 5 :: int]]" by simp
  have l2: "length [''a'', ''b''] = length [[3, 4, - 1], [- 1, 5 :: int]]" by simp
  have l3: "length [''u'', ''u''] = length [[3, 4, - 1], [- 1, 5 :: int]]" by simp
  have ev: "show_prog [[3, 4, - 1], [- 1, 5]] [7, 0] [''a'', ''b''] [''u'', ''u''] =
     Some (Inr \<lparr>prog = [\<lparr>bar_n = - 1, bar_total = 7, bar_closed = True\<rparr>,
                         \<lparr>bar_n = - 1, bar_total = 0, bar_closed = True\<rparr>],
                 finished = [True, True], queues = [[], [5]], warnings = [(0, 7)]\<rparr>)"
    unfolding show_prog_def
    by (subst while_true.simps)
      (simp add: for_body_def finalize_bar_def add_to_bar_def upt_rec Let_def)
  note T = show_prog_finalizes_every_bar [OF l1 l2 l3]
  from T [THEN conjunct1] have a: "list_all (\<lambda>b. b) [True, True]"
    and b: "[(0, 7)] = map (\<lambda>i. (0 :: int, [7, 0 :: int] ! i))
     (filter (\<lambda>i. 0 < [7, 0 :: int] ! i) [0..<length [[3, 4, - 1], [- 1, 5 :: int]]])"
    unfolding ev by simp_all
  from l1 l2 l3 ev a b T [THEN conjunct2] show ?thesis by (intro conjI)
qed

end
